theory Spec2Isabelle
  imports Complex_Main "HOL-Library.Multiset" "HOL-Library.Word"
begin

section \<open>The TSP solver: shotgun hill climbing with 2-opt moves\<close>

text \<open>
  The three source files (\<^verbatim>\<open>TSPSolver-linear.cpp\<close>, \<^verbatim>\<open>main_tsp.cpp\<close>,
  \<^verbatim>\<open>main_tsp_p.cpp\<close>) share \<^verbatim>\<open>calculateTourLength\<close>, \<^verbatim>\<open>twoOptSwap\<close>,
  \<^verbatim>\<open>generateRandomTour\<close> and \<^verbatim>\<open>hillClimb\<close> line for line; they differ in the
  restart loop (sequential, or an OpenMP parallel region) and in where the random
  generator lives (a member \<^verbatim>\<open>gen_\<close>, or one generator per thread).

  Conventions of the embedding.
  \<^item> A tour (\<^verbatim>\<open>std::vector<int>\<close>) is a \<open>nat list\<close>: every element the program stores
    in a tour comes from \<^verbatim>\<open>std::iota(..., 0)\<close>.
  \<^item> A \<^verbatim>\<open>double\<close> is a value of a type \<open>'a\<close> of which only \<open>0\<close>, \<open>+\<close> and \<open><\<close> are
    used, in the order in which the source uses them; each theorem names in its sort
    the laws of \<open>'a\<close> it needs (an order for the comparisons, \<open>0 + c = c\<close> for one
    node), so that rounding in \<open>+\<close> is not excluded.
  \<^item> \<^verbatim>\<open>std::numeric_limits<double>::max()\<close> is the parameter \<open>dmax\<close>.
  \<^item> \<^verbatim>\<open>std::mt19937\<close> and \<^verbatim>\<open>std::shuffle\<close> are library code. The generator state is
    a value of a type \<open>'g\<close>; \<open>shuffle g xs\<close> returns the shuffled range and the
    advanced generator, and \<open>seed_gen s\<close> is the generator constructed from seed \<open>s\<close>.
  \<^item> The member \<^verbatim>\<open>adjacencyMatrix_\<close> is read-only after construction and is passed
    as \<open>adj\<close>; the generator is threaded through explicitly.
  \<^item> A \<^verbatim>\<open>for\<close> loop over a counter that the body does not read
    (\<^verbatim>\<open>iter\<close>, \<^verbatim>\<open>restart\<close>) recurses on the number of iterations still to run:
    \<open>nat numIterations\<close>, \<open>nat numRestarts\<close> (none for a negative bound).
\<close>

subsection \<open>Construction: the adjacency matrix\<close>

datatype error = InvalidMatrix

definition isSquareMatrix :: "'a list list \<Rightarrow> bool" where
  "isSquareMatrix adj = list_all (\<lambda>row. length row = length adj) adj"

text \<open>\<^verbatim>\<open>loadAdjacencyMatrix\<close>, after the rows have been parsed: the constructor throws
  on an empty or non-square matrix.\<close>

definition loadAdjacencyMatrix :: "'a list list \<Rightarrow> error + 'a list list" where
  "loadAdjacencyMatrix rows =
     (if rows = [] \<or> \<not> isSquareMatrix rows then Inl InvalidMatrix else Inr rows)"

subsection \<open>Tour length\<close>

text \<open>The loop of \<^verbatim>\<open>calculateTourLength\<close>, from index \<open>i\<close> with the running total.\<close>

function calculateTourLength_from ::
  "'a::{zero,plus} list list \<Rightarrow> nat list \<Rightarrow> nat \<Rightarrow> 'a \<Rightarrow> 'a" where
  "calculateTourLength_from adj tour i len =
     (if i < length tour
      then calculateTourLength_from adj tour (i + 1)
             (len + adj ! (tour ! i) ! (tour ! ((i + 1) mod length tour)))
      else len)"
  by pat_completeness auto
termination
  by (relation "measure (\<lambda>(adj, tour, i, len). length tour - i)") auto

definition calculateTourLength :: "'a::{zero,plus} list list \<Rightarrow> nat list \<Rightarrow> 'a" where
  "calculateTourLength adj tour = calculateTourLength_from adj tour 0 0"

subsection \<open>The 2-opt move\<close>

text \<open>\<^verbatim>\<open>std::reverse(v.begin() + first, v.begin() + lst)\<close>: the half-open range
  \<open>[first, lst)\<close> of the vector is reversed in place.\<close>

definition reverse_range :: "'b list \<Rightarrow> nat \<Rightarrow> nat \<Rightarrow> 'b list" where
  "reverse_range v first lst =
     take first v @ rev (take (lst - first) (drop first v)) @ drop lst v"

definition twoOptSwap :: "nat list \<Rightarrow> nat \<Rightarrow> nat \<Rightarrow> nat list" where
  "twoOptSwap tour i j = reverse_range tour i (j + 1)"

subsection \<open>Random tours\<close>

text \<open>\<^verbatim>\<open>generateRandomTour\<close>: \<^verbatim>\<open>iota\<close> fills \<open>0, 1, ..., N-1\<close>, then the range from
  \<^verbatim>\<open>begin() + 1\<close> to the end is shuffled.\<close>

definition generateRandomTour ::
  "'a list list \<Rightarrow> ('g \<Rightarrow> nat list \<Rightarrow> nat list \<times> 'g) \<Rightarrow> 'g \<Rightarrow> nat list \<times> 'g" where
  "generateRandomTour adj shuffle g =
     (let tour = [0..<length adj];
          (shuffled, g') = shuffle g (drop 1 tour)
      in (take 1 tour @ shuffled, g'))"

text \<open>What the library promises of \<^verbatim>\<open>std::shuffle\<close>: the range is permuted.\<close>

definition shuffle_permutes :: "('g \<Rightarrow> nat list \<Rightarrow> nat list \<times> 'g) \<Rightarrow> bool" where
  "shuffle_permutes shuffle = (\<forall>g xs. mset (fst (shuffle g xs)) = mset xs)"

subsection \<open>One pass over the 2-opt neighbourhood\<close>

text \<open>The inner loop of \<^verbatim>\<open>hillClimb\<close> over \<open>j\<close>, from \<open>j\<close> on, for a fixed \<open>i\<close>. The result
  is \<open>Some (newTour, newLength)\<close> when the loop leaves through \<^verbatim>\<open>break\<close> with
  \<^verbatim>\<open>improvement = true\<close>, and \<open>None\<close> when it runs to the end.\<close>

function scan_j ::
  "'a::{zero,plus,ord} list list \<Rightarrow> nat list \<Rightarrow> 'a \<Rightarrow> nat \<Rightarrow> nat \<Rightarrow> (nat list \<times> 'a) option" where
  "scan_j adj currentTour currentLength i j =
     (if j < length currentTour
      then (let newTour = twoOptSwap currentTour i j;
                newLength = calculateTourLength adj newTour
            in if newLength < currentLength then Some (newTour, newLength)
               else scan_j adj currentTour currentLength i (j + 1))
      else None)"
  by pat_completeness auto
termination
  by (relation "measure (\<lambda>(adj, tour, len, i, j). length tour - j)") auto

text \<open>The outer loop over \<open>i\<close>, from \<open>i\<close> on; \<^verbatim>\<open>if (improvement) break\<close> passes the
  inner loop's result on. The bound \<^verbatim>\<open>currentTour.size() - 1\<close> is computed in
  \<^verbatim>\<open>size_t\<close>; a tour has the matrix's size, which the constructor makes at least 1,
  so the subtraction does not wrap.\<close>

function scan_i ::
  "'a::{zero,plus,ord} list list \<Rightarrow> nat list \<Rightarrow> 'a \<Rightarrow> nat \<Rightarrow> (nat list \<times> 'a) option" where
  "scan_i adj currentTour currentLength i =
     (if i < length currentTour - 1
      then (case scan_j adj currentTour currentLength i (i + 1) of
              Some improved \<Rightarrow> Some improved
            | None \<Rightarrow> scan_i adj currentTour currentLength (i + 1))
      else None)"
  by pat_completeness auto
termination
  by (relation "measure (\<lambda>(adj, tour, len, i). length tour - 1 - i)") auto

definition neighborhood_scan ::
  "'a::{zero,plus,ord} list list \<Rightarrow> nat list \<Rightarrow> 'a \<Rightarrow> (nat list \<times> 'a) option" where
  "neighborhood_scan adj currentTour currentLength = scan_i adj currentTour currentLength 1"

subsection \<open>Hill climbing\<close>

text \<open>Which exit the iteration loop of \<^verbatim>\<open>hillClimb\<close> took: \<^verbatim>\<open>if (!improvement) break\<close>
  (\<open>Converged\<close>) or the loop condition \<^verbatim>\<open>iter < numIterations\<close> (\<open>CapReached\<close>). The
  source does not return it; the model records it beside the result.\<close>

datatype stop = Converged | CapReached

fun hillClimb_iter ::
  "'a::{zero,plus,ord} list list \<Rightarrow> nat \<Rightarrow> nat list \<times> 'a \<Rightarrow> (nat list \<times> 'a) \<times> stop" where
  "hillClimb_iter adj 0 current = (current, CapReached)"
| "hillClimb_iter adj (Suc n) (currentTour, currentLength) =
     (case neighborhood_scan adj currentTour currentLength of
        None \<Rightarrow> ((currentTour, currentLength), Converged)
      | Some improved \<Rightarrow> hillClimb_iter adj n improved)"

definition hillClimb_run ::
  "'a::{zero,plus,ord} list list \<Rightarrow> ('g \<Rightarrow> nat list \<Rightarrow> nat list \<times> 'g) \<Rightarrow> int \<Rightarrow> 'g
     \<Rightarrow> ((nat list \<times> 'a) \<times> stop) \<times> 'g" where
  "hillClimb_run adj shuffle numIterations g =
     (let (currentTour, g') = generateRandomTour adj shuffle g;
          currentLength = calculateTourLength adj currentTour
      in (hillClimb_iter adj (nat numIterations) (currentTour, currentLength), g'))"

definition hillClimb ::
  "'a::{zero,plus,ord} list list \<Rightarrow> ('g \<Rightarrow> nat list \<Rightarrow> nat list \<times> 'g) \<Rightarrow> int \<Rightarrow> 'g
     \<Rightarrow> (nat list \<times> 'a) \<times> 'g" where
  "hillClimb adj shuffle numIterations g =
     (let (r, g') = hillClimb_run adj shuffle numIterations g in (fst r, g'))"

subsection \<open>Shotgun restarts, sequential\<close>

text \<open>The body of the restart loop after the hill climb: the comparison with the best
  so far.\<close>

definition keep_best :: "nat list \<times> 'a::ord \<Rightarrow> nat list \<times> 'a \<Rightarrow> nat list \<times> 'a" where
  "keep_best best current = (if snd current < snd best then current else best)"

fun restart_loop ::
  "'a::{zero,plus,ord} list list \<Rightarrow> ('g \<Rightarrow> nat list \<Rightarrow> nat list \<times> 'g) \<Rightarrow> int \<Rightarrow> nat \<Rightarrow> 'g
     \<Rightarrow> nat list \<times> 'a \<Rightarrow> (nat list \<times> 'a) \<times> 'g" where
  "restart_loop adj shuffle numIterations 0 g best = (best, g)"
| "restart_loop adj shuffle numIterations (Suc n) g best =
     (let (current, g') = hillClimb adj shuffle numIterations g
      in restart_loop adj shuffle numIterations n g' (keep_best best current))"

text \<open>\<^verbatim>\<open>shotgunHillClimbing\<close> returns \<^verbatim>\<open>bestTour\<close>; \<open>shotgun_state\<close> is the pair
  \<^verbatim>\<open>(bestTour, bestLength)\<close> at the end of the loop, with the generator.\<close>

definition shotgun_state ::
  "'a::{zero,plus,ord} list list \<Rightarrow> ('g \<Rightarrow> nat list \<Rightarrow> nat list \<times> 'g) \<Rightarrow> 'a \<Rightarrow> int \<Rightarrow> int \<Rightarrow> 'g
     \<Rightarrow> (nat list \<times> 'a) \<times> 'g" where
  "shotgun_state adj shuffle dmax numIterations numRestarts g =
     restart_loop adj shuffle numIterations (nat numRestarts) g ([], dmax)"

definition shotgunHillClimbing ::
  "'a::{zero,plus,ord} list list \<Rightarrow> ('g \<Rightarrow> nat list \<Rightarrow> nat list \<times> 'g) \<Rightarrow> 'a \<Rightarrow> int \<Rightarrow> int \<Rightarrow> 'g
     \<Rightarrow> nat list" where
  "shotgunHillClimbing adj shuffle dmax numIterations numRestarts g =
     fst (fst (shotgun_state adj shuffle dmax numIterations numRestarts g))"

text \<open>\<^verbatim>\<open>main\<close> of the sequential programs: the solver is constructed from the seed, and
  the tour is printed with its length, computed anew by \<^verbatim>\<open>calculateTourLength\<close>.\<close>

definition main_sequential ::
  "'a::{zero,plus,ord} list list \<Rightarrow> ('g \<Rightarrow> nat list \<Rightarrow> nat list \<times> 'g) \<Rightarrow> (32 word \<Rightarrow> 'g) \<Rightarrow> 'a
     \<Rightarrow> int \<Rightarrow> int \<Rightarrow> 32 word \<Rightarrow> error + nat list \<times> 'a" where
  "main_sequential rows shuffle seed_gen dmax numIterations numRestarts seed =
     (case loadAdjacencyMatrix rows of
        Inl e \<Rightarrow> Inl e
      | Inr adj \<Rightarrow>
          (let bestTour = shotgunHillClimbing adj shuffle dmax numIterations numRestarts (seed_gen seed)
           in Inr (bestTour, calculateTourLength adj bestTour)))"

subsection \<open>Shotgun restarts, parallel\<close>

text \<open>
  \<^verbatim>\<open>shotgunHillClimbingParallel\<close>. Inside the parallel region a thread touches only its
  own variables and reads the matrix; the one shared update is the critical section at
  the end. An execution is therefore described by its schedule: for each thread, in the
  order in which the threads enter the critical section, the thread number and the
  number of restarts the work-sharing loop gave it (the loop body does not read
  \<^verbatim>\<open>restart\<close>). The thread's generator is seeded with \<^verbatim>\<open>baseSeed_ + threadId\<close>, an
  \<^verbatim>\<open>unsigned\<close> sum.
\<close>

definition thread_local_best ::
  "'a::{zero,plus,ord} list list \<Rightarrow> ('g \<Rightarrow> nat list \<Rightarrow> nat list \<times> 'g) \<Rightarrow> (32 word \<Rightarrow> 'g) \<Rightarrow> 'a
     \<Rightarrow> int \<Rightarrow> 32 word \<Rightarrow> nat \<times> nat \<Rightarrow> nat list \<times> 'a" where
  "thread_local_best adj shuffle seed_gen dmax numIterations baseSeed th =
     fst (restart_loop adj shuffle numIterations (snd th)
            (seed_gen (baseSeed + of_nat (fst th))) ([], dmax))"

definition parallel_state ::
  "'a::{zero,plus,ord} list list \<Rightarrow> ('g \<Rightarrow> nat list \<Rightarrow> nat list \<times> 'g) \<Rightarrow> (32 word \<Rightarrow> 'g) \<Rightarrow> 'a
     \<Rightarrow> int \<Rightarrow> 32 word \<Rightarrow> (nat \<times> nat) list \<Rightarrow> nat list \<times> 'a" where
  "parallel_state adj shuffle seed_gen dmax numIterations baseSeed schedule =
     foldl keep_best ([], dmax)
       (map (thread_local_best adj shuffle seed_gen dmax numIterations baseSeed) schedule)"

definition shotgunHillClimbingParallel ::
  "'a::{zero,plus,ord} list list \<Rightarrow> ('g \<Rightarrow> nat list \<Rightarrow> nat list \<times> 'g) \<Rightarrow> (32 word \<Rightarrow> 'g) \<Rightarrow> 'a
     \<Rightarrow> int \<Rightarrow> 32 word \<Rightarrow> (nat \<times> nat) list \<Rightarrow> nat list" where
  "shotgunHillClimbingParallel adj shuffle seed_gen dmax numIterations baseSeed schedule =
     fst (parallel_state adj shuffle seed_gen dmax numIterations baseSeed schedule)"

text \<open>A schedule of \<open>numRestarts\<close> restarts: each thread number once, and the restarts
  handed out add up.\<close>

definition schedule_of :: "int \<Rightarrow> (nat \<times> nat) list \<Rightarrow> bool" where
  "schedule_of numRestarts schedule =
     (distinct (map fst schedule) \<and> sum_list (map snd schedule) = nat numRestarts)"

definition main_parallel ::
  "'a::{zero,plus,ord} list list \<Rightarrow> ('g \<Rightarrow> nat list \<Rightarrow> nat list \<times> 'g) \<Rightarrow> (32 word \<Rightarrow> 'g) \<Rightarrow> 'a
     \<Rightarrow> int \<Rightarrow> 32 word \<Rightarrow> (nat \<times> nat) list \<Rightarrow> error + nat list \<times> 'a" where
  "main_parallel rows shuffle seed_gen dmax numIterations seed schedule =
     (case loadAdjacencyMatrix rows of
        Inl e \<Rightarrow> Inl e
      | Inr adj \<Rightarrow>
          (let bestTour = shotgunHillClimbingParallel adj shuffle seed_gen dmax numIterations seed schedule
           in Inr (bestTour, calculateTourLength adj bestTour)))"

subsection \<open>Notions used to state the properties\<close>

text \<open>A tour over \<open>N\<close> nodes: every index below \<open>N\<close> exactly once, node 0 first.\<close>

definition permutation_of :: "nat \<Rightarrow> nat list \<Rightarrow> bool" where
  "permutation_of N tour = (mset tour = mset [0..<N])"

definition anchored_tour :: "nat \<Rightarrow> nat list \<Rightarrow> bool" where
  "anchored_tour N tour = (permutation_of N tour \<and> take 1 tour = [0])"

text \<open>The edges of the cycle a tour describes, each as the unordered pair of its ends,
  counted with multiplicity; and the edges of a path.\<close>

definition cycle_edges :: "nat list \<Rightarrow> nat set multiset" where
  "cycle_edges tour =
     mset (map (\<lambda>k. {tour ! k, tour ! ((k + 1) mod length tour)}) [0..<length tour])"

text \<open>The same edges as the program charges them: the ordered pair \<open>(from, to)\<close>, whose
  cost is \<open>adj[from][to]\<close>.\<close>

definition cycle_arcs :: "nat list \<Rightarrow> (nat \<times> nat) multiset" where
  "cycle_arcs tour =
     mset (map (\<lambda>k. (tour ! k, tour ! ((k + 1) mod length tour))) [0..<length tour])"

fun path_edges :: "nat list \<Rightarrow> nat set multiset" where
  "path_edges (x # y # zs) = add_mset {x, y} (path_edges (y # zs))"
| "path_edges zs = {#}"

text \<open>The 2-opt neighbourhood of a tour of \<open>N\<close> nodes as a list of index pairs, and what
  the scan does with a pair.\<close>

definition neighbourhood :: "nat \<Rightarrow> (nat \<times> nat) list" where
  "neighbourhood N = concat (map (\<lambda>i. map (Pair i) [i + 1..<N]) [1..<N - 1])"

definition lex_less :: "nat \<times> nat \<Rightarrow> nat \<times> nat \<Rightarrow> bool" where
  "lex_less p q = (fst p < fst q \<or> (fst p = fst q \<and> snd p < snd q))"

definition move_result :: "'a::{zero,plus} list list \<Rightarrow> nat list \<Rightarrow> nat \<times> nat \<Rightarrow> nat list \<times> 'a" where
  "move_result adj tour p =
     (twoOptSwap tour (fst p) (snd p),
      calculateTourLength adj (twoOptSwap tour (fst p) (snd p)))"

definition improves :: "'a::{zero,plus,ord} list list \<Rightarrow> nat list \<Rightarrow> 'a \<Rightarrow> nat \<times> nat \<Rightarrow> bool" where
  "improves adj tour len p = (snd (move_result adj tour p) < len)"

text \<open>The value of \<^verbatim>\<open>currentLength\<close> at the end of each iteration of the loop of
  \<^verbatim>\<open>hillClimb\<close>, in order (the iteration that finds no improvement leaves it as it
  was, and is the last).\<close>

fun hillClimb_lengths ::
  "'a::{zero,plus,ord} list list \<Rightarrow> nat \<Rightarrow> nat list \<times> 'a \<Rightarrow> 'a list" where
  "hillClimb_lengths adj 0 current = []"
| "hillClimb_lengths adj (Suc n) (currentTour, currentLength) =
     (case neighborhood_scan adj currentTour currentLength of
        None \<Rightarrow> [currentLength]
      | Some improved \<Rightarrow> snd improved # hillClimb_lengths adj n improved)"

text \<open>The results of \<open>n\<close> successive hill climbs from generator \<open>g\<close>, in run order.\<close>

fun run_results ::
  "'a::{zero,plus,ord} list list \<Rightarrow> ('g \<Rightarrow> nat list \<Rightarrow> nat list \<times> 'g) \<Rightarrow> int \<Rightarrow> nat \<Rightarrow> 'g
     \<Rightarrow> (nat list \<times> 'a) list" where
  "run_results adj shuffle numIterations 0 g = []"
| "run_results adj shuffle numIterations (Suc n) g =
     (let (current, g') = hillClimb adj shuffle numIterations g
      in current # run_results adj shuffle numIterations n g')"

subsection \<open>Concrete values for evaluating the model\<close>

text \<open>The largest finite \<^verbatim>\<open>double\<close>, \<^verbatim>\<open>0x1.fffffffffffffp+1023\<close>, which is
  \<open>2^1024 - 2^971\<close> and is printed \<^verbatim>\<open>1.7976931348623157e308\<close>.\<close>

definition DBL_MAX :: real where
  "DBL_MAX = 2 ^ 1024 - 2 ^ 971"

text \<open>Two instances of four nodes: the symmetric one of the specification's scenario
  (optimal length 80), and an asymmetric one in which the tours \<open>0-1-2-3\<close>, \<open>0-2-3-1\<close>
  and \<open>0-3-1-2\<close> have lengths 3, 2 and 1 and every 2-opt neighbour of each has length
  at least 10.\<close>

definition classic4 :: "real list list" where
  "classic4 = [[0, 10, 15, 20], [10, 0, 35, 25], [15, 35, 0, 30], [20, 25, 30, 0]]"

definition skew4 :: "real list list" where
  "skew4 = [[0, 1, 1, 0], [0, 0, 1, 10], [0, 10, 0, 1], [0, 0, 10, 0]]"

text \<open>An asymmetric instance of four nodes in which going from node 2 to node 3 costs
  100, going back costs 1, and every other entry is 0.\<close>

definition oneway4 :: "real list list" where
  "oneway4 = [[0, 0, 0, 0], [0, 0, 0, 0], [0, 0, 0, 100], [0, 0, 1, 0]]"

text \<open>Two instances of three nodes: in the first the tour \<open>0-1-2\<close> has length 3 and
  the tour \<open>0-2-1\<close> length 0, in the second the other way round.\<close>

definition cyc3 :: "real list list" where
  "cyc3 = [[0, 1, 0], [0, 0, 1], [1, 0, 0]]"

definition cyc3' :: "real list list" where
  "cyc3' = [[0, 0, 1], [1, 0, 0], [0, 1, 0]]"

text \<open>A deterministic generator to run the model with: its state is a counter, a
  shuffle rotates the range by the counter and advances it, and seeding sets the
  counter to the seed.\<close>

definition counter_shuffle :: "nat \<Rightarrow> nat list \<Rightarrow> nat list \<times> nat" where
  "counter_shuffle g xs = (rotate g xs, g + 1)"

definition counter_seed :: "32 word \<Rightarrow> nat" where
  "counter_seed s = unat s"

section \<open>Tour length\<close>

declare calculateTourLength_from.simps [simp del]
declare scan_j.simps [simp del] scan_i.simps [simp del]

lemma calculateTourLength_from_fold:
  "i \<le> length tour \<Longrightarrow> calculateTourLength_from adj tour i len =
     foldl (+) len (map (\<lambda>k. adj ! (tour ! k) ! (tour ! ((k + 1) mod length tour))) [i..<length tour])"
proof (induction adj tour i len rule: calculateTourLength_from.induct)
  case (1 adj tour i len)
  show ?case
  proof (cases "i < length tour")
    case True
    then have "[i..<length tour] = i # [i + 1..<length tour]"
      by (simp add: upt_conv_Cons)
    with True 1 show ?thesis
      by (subst calculateTourLength_from.simps) simp
  next
    case False
    with 1 show ?thesis
      by (subst calculateTourLength_from.simps) simp
  qed
qed

lemma calculateTourLength_fold:
  "calculateTourLength adj tour =
     foldl (+) 0 (map (\<lambda>k. adj ! (tour ! k) ! (tour ! ((k + 1) mod length tour))) [0..<length tour])"
  by (simp add: calculateTourLength_def calculateTourLength_from_fold)

lemma foldl_add_sum_list:
  fixes a :: "'a::monoid_add"
  shows "foldl (+) a xs = a + sum_list xs"
  by (induction xs arbitrary: a) (simp_all add: add.assoc)

lemma calculateTourLength_sum:
  fixes adj :: "'a::comm_monoid_add list list"
  shows "calculateTourLength adj tour =
     (\<Sum>k<length tour. adj ! (tour ! k) ! (tour ! ((k + 1) mod length tour)))"
  by (simp add: calculateTourLength_fold foldl_add_sum_list sum_list_sum_nth atLeast0LessThan)


lemma permutation_of_length: "permutation_of N tour \<Longrightarrow> length tour = N"
  by (metis permutation_of_def length_upt diff_zero size_mset)

lemma permutation_of_nth: "permutation_of N tour \<Longrightarrow> k < N \<Longrightarrow> tour ! k < N"
proof -
  assume p: "permutation_of N tour" and k: "k < N"
  then have "tour ! k \<in> set tour" by (simp add: permutation_of_length)
  moreover have "set tour = {0..<N}"
    using p by (metis permutation_of_def mset_eq_setD set_upt)
  ultimately show ?thesis by simp
qed


text \<open>
  Claim C1. For a tour that is a permutation of \<open>0, ..., N-1\<close> over an \<open>N \<times> N\<close> matrix,
  \<^verbatim>\<open>calculateTourLength\<close> returns the sum, accumulated from \<open>0\<close> in the order
  \<open>k = 0, ..., N-1\<close>, of the \<open>N\<close> edge costs \<open>adj[tour[k]][tour[(k+1) mod N]]\<close>; the
  term for \<open>k = N-1\<close> is the closing edge from the last node back to the first. Every
  index the loop reads is in range.
\<close>

theorem calculateTourLength_sums_cycle:
  assumes "isSquareMatrix adj" and "length adj = N" and "permutation_of N tour"
  shows "calculateTourLength adj tour
           = foldl (+) 0 (map (\<lambda>k. adj ! (tour ! k) ! (tour ! ((k + 1) mod N))) [0..<N])
         \<and> length (map (\<lambda>k. adj ! (tour ! k) ! (tour ! ((k + 1) mod N))) [0..<N]) = N
         \<and> (\<forall>k<N. tour ! k < length adj
                    \<and> tour ! ((k + 1) mod N) < length (adj ! (tour ! k)))"
proof -
  have len: "length tour = N" using assms(3) by (rule permutation_of_length)
  have rows: "length (adj ! r) = N" if "r < N" for r
    using assms(1,2) that by (simp add: isSquareMatrix_def list_all_length)
  have "tour ! k < length adj \<and> tour ! ((k + 1) mod N) < length (adj ! (tour ! k))"
    if "k < N" for k
  proof -
    have a: "tour ! k < N" using assms(3) that by (rule permutation_of_nth)
    have "(k + 1) mod N < N" using that by simp
    then have "tour ! ((k + 1) mod N) < N" using assms(3) by (rule permutation_of_nth[rotated])
    then show ?thesis using a rows assms(2) by simp
  qed
  then show ?thesis using len by (simp add: calculateTourLength_fold)
qed

theorem calculateTourLength_sums_cycle_witness:
  "isSquareMatrix classic4
   \<and> length classic4 = 4
   \<and> permutation_of 4 [0, 1, 3, 2]
   \<and> calculateTourLength classic4 [0, 1, 3, 2] = 0 + 10 + 25 + 30 + 15"
proof -
  have sq: "isSquareMatrix classic4" by (simp add: isSquareMatrix_def classic4_def)
  have n: "length classic4 = 4" by (simp add: classic4_def)
  have up: "[0..<4] = [0, 1, 2, 3::nat]" by (simp add: upt_rec)
  have pm: "permutation_of 4 [0, 1, 3, 2]" by (simp add: permutation_of_def up)
  from calculateTourLength_sums_cycle[OF sq n pm]
  have "calculateTourLength classic4 [0, 1, 3, 2]
          = foldl (+) 0 (map (\<lambda>k. classic4 ! ([0, 1, 3, 2] ! k) ! ([0, 1, 3, 2] ! ((k + 1) mod 4)))
                           [0..<4])"
    by (rule conjunct1)
  also have "\<dots> = 0 + 10 + 25 + 30 + 15" unfolding up by (simp add: classic4_def)
  finally show ?thesis using sq n pm by simp
qed

section \<open>The 2-opt move\<close>

lemma mset_reverse_range: "first \<le> lst \<Longrightarrow> mset (reverse_range v first lst) = mset v"
proof -
  assume a: "first \<le> lst"
  have "drop lst v = drop (lst - first) (drop first v)" using a by simp
  then have "mset (reverse_range v first lst) = mset (take first v) + (mset (take (lst - first) (drop first v)) + mset (drop (lst - first) (drop first v)))"
    by (simp add: reverse_range_def)
  also have "\<dots> = mset (take first v) + mset (drop first v)"
    by (metis append_take_drop_id mset_append)
  also have "\<dots> = mset v"  by (metis append_take_drop_id mset_append)
  finally show ?thesis .
qed

lemma length_reverse_range: "first \<le> lst \<Longrightarrow> length (reverse_range v first lst) = length v"
  by (simp add: reverse_range_def min_def)

lemma nth_reverse_range:
  assumes "first \<le> lst" "lst \<le> length v" "k < length v"
  shows "reverse_range v first lst ! k = (if first \<le> k \<and> k < lst then v ! (first + lst - 1 - k) else v ! k)"
proof -
  have l: "length (take (lst - first) (drop first v)) = lst - first"
    using assms by simp
  consider "k < first" | "first \<le> k" "k < lst" | "lst \<le> k" by linarith
  then show ?thesis
  proof cases
    case 1
    then show ?thesis using assms by (simp add: reverse_range_def nth_append)
  next
    case 2
    then have "reverse_range v first lst ! k = rev (take (lst - first) (drop first v)) ! (k - first)"
      using assms by (simp add: reverse_range_def nth_append)
    also have "\<dots> = take (lst - first) (drop first v) ! (lst - first - Suc (k - first))"
      using 2 l by (simp add: rev_nth)
    also have "\<dots> = v ! (first + (lst - first - Suc (k - first)))"
      using 2 assms by simp
    also have "first + (lst - first - Suc (k - first)) = first + lst - 1 - k"
      using 2 by arith
    finally show ?thesis using 2 by simp
  next
    case 3
    have "length (take first v @ rev (take (lst - first) (drop first v))) = lst"
      using assms by simp
    then have "((take first v @ rev (take (lst - first) (drop first v))) @ drop lst v) ! k
        = drop lst v ! (k - lst)"
      using 3 by (simp only: nth_append) simp
    then have "reverse_range v first lst ! k = drop lst v ! (k - lst)"
      by (simp add: reverse_range_def)
    then show ?thesis using 3 assms by simp
  qed
qed

lemma path_edges_Cons: "ys \<noteq> [] \<Longrightarrow> path_edges (x # ys) = add_mset {x, hd ys} (path_edges ys)"
  by (cases ys) simp_all

lemma path_edges_append:
  "xs \<noteq> [] \<Longrightarrow> ys \<noteq> [] \<Longrightarrow>
   path_edges (xs @ ys) = path_edges xs + add_mset {last xs, hd ys} (path_edges ys)"
proof (induction xs)
  case Nil
  then show ?case by simp
next
  case (Cons x xs)
  then show ?case by (cases xs) (simp_all add: path_edges_Cons)
qed

lemma path_edges_rev: "path_edges (rev xs) = path_edges xs"
proof (induction xs rule: path_edges.induct)
  case (1 x y zs)
  have "path_edges (rev (x # y # zs)) = path_edges (rev (y # zs) @ [x])" by simp
  also have "\<dots> = path_edges (rev (y # zs)) + add_mset {last (rev (y # zs)), x} {#}"
    by (subst path_edges_append) simp_all
  also have "\<dots> = add_mset {x, y} (path_edges (y # zs))"
    using 1 by (simp add: insert_commute)
  finally show ?case by simp
qed simp_all

lemma path_edges_nth:
  "path_edges xs = mset (map (\<lambda>k. {xs ! k, xs ! (k + 1)}) [0..<length xs - 1])"
proof (induction xs rule: path_edges.induct)
  case (1 x y zs)
  have "[0..<length (x # y # zs) - 1] = 0 # map Suc [0..<length (y # zs) - 1]"
    by (simp add: upt_conv_Cons map_Suc_upt del: upt_Suc)
  then show ?case using 1 by (simp add: comp_def del: upt_Suc)
qed simp_all

lemma cycle_edges_path: 
  assumes "xs \<noteq> []"
  shows "cycle_edges xs = path_edges (xs @ [hd xs])"
proof -
  have "map (\<lambda>k. {xs ! k, xs ! ((k + 1) mod length xs)}) [0..<length xs]
      = map (\<lambda>k. {(xs @ [hd xs]) ! k, (xs @ [hd xs]) ! (k + 1)}) [0..<length xs]"
  proof (rule map_cong[OF refl])
    fix k assume "k \<in> set [0..<length xs]"
    then have k: "k < length xs" by simp
    show "{xs ! k, xs ! ((k + 1) mod length xs)} = {(xs @ [hd xs]) ! k, (xs @ [hd xs]) ! (k + 1)}"
    proof (cases "k + 1 < length xs")
      case True
      then show ?thesis using k by (simp add: nth_append)
    next
      case False
      then have "k + 1 = length xs" using k by simp
      then show ?thesis using k assms by (simp add: nth_append hd_conv_nth)
    qed
  qed
  then have "mset (map (\<lambda>k. {xs ! k, xs ! ((k + 1) mod length xs)}) [0..<length xs])
      = mset (map (\<lambda>k. {(xs @ [hd xs]) ! k, (xs @ [hd xs]) ! (k + 1)}) [0..<length xs])"
    by (rule arg_cong)
  moreover have "length (xs @ [hd xs]) - 1 = length xs" by simp
  ultimately show ?thesis
    unfolding cycle_edges_def path_edges_nth by (simp only:)
qed

lemma twoOptSwap_edges:
  assumes "1 \<le> i" "i < j" "j \<le> length tour - 1"
  shows "cycle_edges (twoOptSwap tour i j)
           + {#{tour ! (i - 1), tour ! i}, {tour ! j, tour ! ((j + 1) mod length tour)}#}
         = cycle_edges tour
           + {#{tour ! (i - 1), tour ! j}, {tour ! i, tour ! ((j + 1) mod length tour)}#}"
proof -
  define A where "A = take i tour"
  define S where "S = take (j + 1 - i) (drop i tour)"
  define B where "B = drop (j + 1) tour"
  have jl: "j < length tour" using assms by arith
  have lA: "length A = i" using assms jl by (simp add: A_def)
  have lS: "length S = j + 1 - i" using assms jl by (simp add: S_def)
  have A: "A \<noteq> []" using lA assms by auto
  have S: "S \<noteq> []" using lS assms by auto
  have "drop (j + 1) tour = drop (j + 1 - i) (drop i tour)" using assms by simp
  then have tour: "tour = A @ S @ B"
    unfolding A_def S_def B_def by (metis append_take_drop_id)
  have new: "twoOptSwap tour i j = A @ rev S @ B"
    by (simp add: twoOptSwap_def reverse_range_def A_def S_def B_def)
  have hdA: "hd A = tour ! 0" using A tour by (simp add: hd_conv_nth nth_append)
  have lastA: "last A = tour ! (i - 1)"
  proof -
    have "last A = A ! (i - 1)" using A lA by (simp add: last_conv_nth)
    also have "\<dots> = (A @ S @ B) ! (i - 1)" using lA assms by (simp add: nth_append)
    finally show ?thesis using tour by simp
  qed
  have hdS: "hd S = tour ! i"
    using S lA tour by (simp add: hd_conv_nth nth_append)
  have lastS: "last S = tour ! j"
  proof -
    have "last S = S ! (j - i)" using S lS by (simp add: last_conv_nth)
    also have "\<dots> = (A @ S @ B) ! j"
    proof -
      have "j - i < length S" using lS assms by arith
      moreover have "\<not> j < length A" using lA assms by simp
      ultimately show ?thesis using lA by (simp add: nth_append)
    qed
    finally show ?thesis using tour by simp
  qed
  define C where "C = B @ [hd A]"
  have C: "C \<noteq> []" by (simp add: C_def)
  have hdC: "hd C = tour ! ((j + 1) mod length tour)"
  proof (cases "B = []")
    case True
    have "length tour = length A + length S + length B" by (subst tour) simp
    then have "length tour = j + 1" using True lA lS assms by simp
    then show ?thesis using True hdA by (simp add: C_def)
  next
    case False
    then have "j + 1 < length tour" by (simp add: B_def)
    moreover have "hd B = tour ! (j + 1)" using False by (simp add: B_def hd_drop_conv_nth)
    ultimately show ?thesis using False by (simp add: C_def)
  qed
  have old_e: "cycle_edges tour
      = path_edges A + add_mset {last A, hd S} (path_edges S + add_mset {last S, hd C} (path_edges C))"
  proof -
    have "cycle_edges tour = path_edges (A @ S @ C)"
      using tour A by (subst cycle_edges_path) (auto simp: C_def)
    then show ?thesis using A S C by (simp add: path_edges_append)
  qed
  have new_e: "cycle_edges (twoOptSwap tour i j)
      = path_edges A + add_mset {last A, last S} (path_edges S + add_mset {hd S, hd C} (path_edges C))"
  proof -
    have "cycle_edges (twoOptSwap tour i j) = path_edges (A @ rev S @ C)"
      using new A by (subst cycle_edges_path) (auto simp: C_def)
    then show ?thesis using A S C by (simp add: path_edges_append path_edges_rev hd_rev last_rev)
  qed
  show ?thesis
    unfolding old_e new_e lastA hdS lastS hdC by (simp add: insert_commute)
qed

lemma twoOptSwap_nth:
  assumes "1 \<le> i" and "i < j" and "j \<le> length tour - 1" and "k < length tour"
  shows "twoOptSwap tour i j ! k = (if i \<le> k \<and> k \<le> j then tour ! (i + j - k) else tour ! k)"
proof -
  have jl: "j + 1 \<le> length tour" and ij: "i \<le> j + 1" using assms by arith+
  show ?thesis using nth_reverse_range[OF ij jl assms(4)] by (auto simp: twoOptSwap_def)
qed

lemma twoOptSwap_nth_outside:
  assumes "1 \<le> i" and "i < j" and "j \<le> length tour - 1" and "k < length tour"
    and "\<not> (i \<le> k \<and> k \<le> j)"
  shows "twoOptSwap tour i j ! k = tour ! k"
  unfolding twoOptSwap_nth[OF assms(1-4)] if_not_P[OF assms(5)] ..

lemma twoOptSwap_nth_inside:
  assumes "1 \<le> i" and "i < j" and "j \<le> length tour - 1" and "i \<le> k" and "k \<le> j"
  shows "twoOptSwap tour i j ! k = tour ! (i + j - k)"
proof -
  have "k < length tour" using assms by arith
  from twoOptSwap_nth[OF assms(1-3) this] assms(4,5) show ?thesis by simp
qed

lemma twoOptSwap_arcs:
  assumes "1 \<le> i" and "i < j" and "j \<le> length tour - 1" and "k < length tour"
  shows "(twoOptSwap tour i j ! k, twoOptSwap tour i j ! ((k + 1) mod length tour))
     = (if k = i - 1 then (tour ! (i - 1), tour ! j)
        else if k = j then (tour ! i, tour ! ((j + 1) mod length tour))
        else if i \<le> k \<and> k < j then (tour ! (i + j - k), tour ! (i + j - k - 1))
        else (tour ! k, tour ! ((k + 1) mod length tour)))"
proof -
  let ?N = "length tour"
  let ?s = "twoOptSwap tour i j"
  have N: "j < ?N" using assms by arith
  have "0 < ?N" using assms(4) by arith
  then have m: "(k + 1) mod ?N < ?N" by (rule mod_less_divisor)
  have out: "?s ! q = tour ! q" if "q < ?N" and "\<not> (i \<le> q \<and> q \<le> j)" for q
    using that by (rule twoOptSwap_nth_outside[OF assms(1-3)])
  have ins: "?s ! q = tour ! (i + j - q)" if "i \<le> q" and "q \<le> j" for q
    using that by (rule twoOptSwap_nth_inside[OF assms(1-3)])
  have wrap: "(q + 1) mod ?N = 0 \<or> (q + 1) mod ?N = q + 1" if "q < ?N" for q
    using that by (cases "q + 1 = ?N") simp_all
  consider "k = i - 1" | "k = j" | "i \<le> k" "k < j" | "k < i - 1" | "j < k"
    by arith
  then show ?thesis
  proof cases
    case 1
    have "\<not> (i \<le> k \<and> k \<le> j)" using 1 assms(1) by arith
    then have "?s ! k = tour ! k" using assms(4) by (intro out)
    moreover have "(k + 1) mod ?N = i" using 1 assms N by simp
    moreover have "?s ! i = tour ! j" using ins[of i] assms by simp
    ultimately show ?thesis using 1 by simp
  next
    case 2
    have "\<not> (i \<le> (j + 1) mod ?N \<and> (j + 1) mod ?N \<le> j)" using wrap[OF N] assms by auto
    then have "?s ! ((j + 1) mod ?N) = tour ! ((j + 1) mod ?N)"
      using m unfolding 2 by (intro out)
    moreover have "?s ! j = tour ! i" using ins[of j] assms by simp
    moreover have "j \<noteq> i - 1" using assms by arith
    ultimately show ?thesis using 2 by simp
  next
    case 3
    have e: "(k + 1) mod ?N = k + 1" using 3 N by simp
    have "?s ! k = tour ! (i + j - k)" using 3 by (intro ins) simp_all
    moreover have "?s ! (k + 1) = tour ! (i + j - (k + 1))" using 3 by (intro ins) simp_all
    moreover have "i + j - (k + 1) = i + j - k - 1" by simp
    moreover have "k \<noteq> i - 1" "k \<noteq> j" using 3 assms by arith+
    ultimately show ?thesis using 3 e by simp
  next
    case 4
    have e: "(k + 1) mod ?N = k + 1" using 4 N assms by simp
    have "\<not> (i \<le> k \<and> k \<le> j)" "\<not> (i \<le> k + 1 \<and> k + 1 \<le> j)" "k + 1 < ?N"
      using 4 N assms by arith+
    then have "?s ! k = tour ! k" "?s ! (k + 1) = tour ! (k + 1)"
      using assms(4) by (simp_all add: out)
    moreover have "k \<noteq> i - 1" "k \<noteq> j" "\<not> (i \<le> k \<and> k < j)" using 4 assms by arith+
    ultimately show ?thesis using e by auto
  next
    case 5
    have "\<not> (i \<le> (k + 1) mod ?N \<and> (k + 1) mod ?N \<le> j)"
      using wrap[OF assms(4)] assms 5 by auto
    then have "?s ! ((k + 1) mod ?N) = tour ! ((k + 1) mod ?N)" using m by (intro out)
    moreover have "\<not> (i \<le> k \<and> k \<le> j)" using 5 by arith
    then have "?s ! k = tour ! k" using assms(4) by (intro out)
    moreover have "k \<noteq> i - 1" "k \<noteq> j" "\<not> (i \<le> k \<and> k < j)" using 5 assms by arith+
    ultimately show ?thesis by auto
  qed
qed

text \<open>
  Claim C2, as amended. For a tour of length \<open>N\<close> and \<open>1 \<le> i < j \<le> N-1\<close>, \<^verbatim>\<open>twoOptSwap\<close>
  returns a tour of the same length that agrees with the input outside positions
  \<open>i..j\<close> (position 0 included) and holds the segment \<open>i..j\<close> reversed: position \<open>k\<close> of
  the segment holds the input's element at \<open>i + j - k\<close>. The edge leaving position
  \<open>i-1\<close> becomes \<open>(tour[i-1], tour[j])\<close>, the edge leaving position \<open>j\<close> becomes
  \<open>(tour[i], tour[(j+1) mod N])\<close>, the edges leaving the positions outside \<open>i-1..j\<close> are
  the input's, and each of the \<open>j - i\<close> edges inside the segment is replaced by its
  reverse. So the claim's exchange of two edges, all others being preserved, holds of
  the edges read as unordered pairs of nodes: \<open>{tour[i-1], tour[i]}\<close> and
  \<open>{tour[j], tour[(j+1) mod N]}\<close> are replaced by \<open>{tour[i-1], tour[j]}\<close> and
  \<open>{tour[i], tour[(j+1) mod N]}\<close>, and all other unordered pairs are kept.
\<close>

theorem twoOptSwap_reverses_segment:
  assumes "1 \<le> i" and "i < j" and "j \<le> length tour - 1"
  shows "length (twoOptSwap tour i j) = length tour
         \<and> (\<forall>k<length tour. twoOptSwap tour i j ! k
               = (if i \<le> k \<and> k \<le> j then tour ! (i + j - k) else tour ! k))
         \<and> twoOptSwap tour i j ! 0 = tour ! 0
         \<and> (\<forall>k<length tour.
               (twoOptSwap tour i j ! k, twoOptSwap tour i j ! ((k + 1) mod length tour))
               = (if k = i - 1 then (tour ! (i - 1), tour ! j)
                  else if k = j then (tour ! i, tour ! ((j + 1) mod length tour))
                  else if i \<le> k \<and> k < j then (tour ! (i + j - k), tour ! (i + j - k - 1))
                  else (tour ! k, tour ! ((k + 1) mod length tour))))
         \<and> cycle_edges (twoOptSwap tour i j)
             + {#{tour ! (i - 1), tour ! i}, {tour ! j, tour ! ((j + 1) mod length tour)}#}
           = cycle_edges tour
             + {#{tour ! (i - 1), tour ! j}, {tour ! i, tour ! ((j + 1) mod length tour)}#}"
proof -
  have ij: "i \<le> j + 1" using assms by arith
  have "0 < length tour" using assms by arith
  then have "twoOptSwap tour i j ! 0 = tour ! 0"
    using assms(1) by (intro twoOptSwap_nth_outside[OF assms]) simp_all
  moreover have "length (twoOptSwap tour i j) = length tour"
    using ij by (simp add: twoOptSwap_def length_reverse_range)
  ultimately show ?thesis
    using twoOptSwap_nth[OF assms] twoOptSwap_arcs[OF assms] twoOptSwap_edges[OF assms]
    by simp
qed

theorem twoOptSwap_reverses_segment_witness:
  "twoOptSwap [0, 3, 1, 4, 2, 5] 2 4 ! 0 = 0
   \<and> twoOptSwap [0, 3, 1, 4, 2, 5] 2 4 ! 1 = 3
   \<and> twoOptSwap [0, 3, 1, 4, 2, 5] 2 4 ! 2 = 2
   \<and> twoOptSwap [0, 3, 1, 4, 2, 5] 2 4 ! 3 = 4
   \<and> twoOptSwap [0, 3, 1, 4, 2, 5] 2 4 ! 4 = 1
   \<and> twoOptSwap [0, 3, 1, 4, 2, 5] 2 4 ! 5 = 5
   \<and> cycle_edges (twoOptSwap [0, 3, 1, 4, 2, 5] 2 4) + {#{3, 1}, {2, 5}#}
       = cycle_edges [0, 3, 1, 4, 2, 5] + {#{3, 2}, {1, 5}#}"
proof -
  let ?t = "[0, 3, 1, 4, 2, 5] :: nat list"
  have h: "(1::nat) \<le> 2" "(2::nat) < 4" "4 \<le> length ?t - 1" by simp_all
  note r = twoOptSwap_reverses_segment[OF h]
  from r have nth: "\<And>k. k < 6 \<Longrightarrow> twoOptSwap ?t 2 4 ! k
      = (if 2 \<le> k \<and> k \<le> 4 then ?t ! (2 + 4 - k) else ?t ! k)" by simp
  from r have e: "cycle_edges (twoOptSwap ?t 2 4)
        + {#{?t ! (2 - 1), ?t ! 2}, {?t ! 4, ?t ! ((4 + 1) mod length ?t)}#}
      = cycle_edges ?t + {#{?t ! (2 - 1), ?t ! 4}, {?t ! 2, ?t ! ((4 + 1) mod length ?t)}#}"
    by blast
  show ?thesis using nth[of 0] nth[of 1] nth[of 2] nth[of 3] nth[of 4] nth[of 5] e by simp
qed

text \<open>The claim as stated, with the edges as the ordered pairs the program charges,
  fails: reversing positions 2..3 of \<open>0-1-2-3\<close> also replaces the edge \<open>(2, 3)\<close> by
  \<open>(3, 2)\<close>. On the instance \<open>oneway4\<close> the four edges the claim names cost 0 and the
  length goes from 100 to 1.\<close>

theorem twoOptSwap_reverses_inner_arcs:
  "twoOptSwap [0, 1, 2, 3] 2 3 = [0, 1, 3, 2]
   \<and> cycle_arcs (twoOptSwap [0, 1, 2, 3] 2 3) + {#(1, 2), (3, 0)#}
       \<noteq> cycle_arcs [0, 1, 2, 3] + {#(1, 3), (2, 0)#}
   \<and> (2, 3) \<in># cycle_arcs [0, 1, 2, 3]
   \<and> (2, 3) \<notin># cycle_arcs (twoOptSwap [0, 1, 2, 3] 2 3)
   \<and> oneway4 ! 1 ! 2 = 0 \<and> oneway4 ! 3 ! 0 = 0 \<and> oneway4 ! 1 ! 3 = 0 \<and> oneway4 ! 2 ! 0 = 0
   \<and> calculateTourLength oneway4 [0, 1, 2, 3] = 100
   \<and> calculateTourLength oneway4 (twoOptSwap [0, 1, 2, 3] 2 3) = 1"
proof -
  have up: "[0..<4] = [0, 1, 2, 3::nat]" by (simp add: upt_rec)
  have sw: "twoOptSwap [0, 1, 2, 3] 2 3 = [0, 1, 3, 2]"
    by (simp add: twoOptSwap_def reverse_range_def)
  have old_arcs: "cycle_arcs [0, 1, 2, 3] = {#(0, 1), (1, 2), (2, 3), (3, 0)#}"
    by (simp add: cycle_arcs_def up)
  have new_arcs: "cycle_arcs [0, 1, 3, 2] = {#(0, 1), (1, 3), (3, 2), (2, 0)#}"
    by (simp add: cycle_arcs_def up)
  have "count ({#(0, 1), (1, 3), (3, 2), (2, 0)#} + {#(1, 2), (3, 0::nat)#}) (2::nat, 3::nat)
      \<noteq> count ({#(0, 1), (1, 2), (2, 3), (3, 0)#} + {#(1, 3), (2, 0)#}) (2, 3)"
    by simp
  then have ne: "cycle_arcs [0, 1, 3, 2] + {#(1, 2), (3, 0)#}
      \<noteq> cycle_arcs [0, 1, 2, 3] + {#(1, 3), (2, 0)#}"
    unfolding old_arcs new_arcs by metis
  have l1: "calculateTourLength oneway4 [0, 1, 2, 3] = 100"
    by (simp add: calculateTourLength_fold up oneway4_def)
  have l2: "calculateTourLength oneway4 [0, 1, 3, 2] = 1"
    by (simp add: calculateTourLength_fold up oneway4_def)
  have m1: "(2, 3) \<in># cycle_arcs [0, 1, 2, 3]" unfolding old_arcs by simp
  have m2: "(2, 3) \<notin># cycle_arcs [0, 1, 3, 2]" unfolding new_arcs by simp
  have z: "oneway4 ! 1 ! 2 = 0" "oneway4 ! 3 ! 0 = 0" "oneway4 ! 1 ! 3 = 0" "oneway4 ! 2 ! 0 = 0"
    by (simp_all add: oneway4_def)
  show ?thesis
    unfolding sw using ne m1 m2 z l1 l2 by blast
qed

section \<open>The neighbourhood scan\<close>

lemma find_append_option:
  "find P (xs @ ys) = (case find P xs of Some x \<Rightarrow> Some x | None \<Rightarrow> find P ys)"
  by (induction xs) simp_all

lemma scan_j_find:
  "scan_j adj tour len i j
     = map_option (move_result adj tour) (find (improves adj tour len) (map (Pair i) [j..<length tour]))"
proof (induction adj tour len i j rule: scan_j.induct)
  case (1 adj tour len i j)
  show ?case
  proof (cases "j < length tour")
    case True
    then have up: "[j..<length tour] = j # [Suc j..<length tour]"
      by (simp add: upt_conv_Cons)
    show ?thesis
    proof (cases "calculateTourLength adj (twoOptSwap tour i j) < len")
      case imp: True
      then show ?thesis using True
        by (subst scan_j.simps) (simp add: up improves_def move_result_def Let_def)
    next
      case False
      have ih: "scan_j adj tour len i (j + 1)
          = map_option (move_result adj tour)
              (find (improves adj tour len) (map (Pair i) [j + 1..<length tour]))"
        using 1[OF True refl refl False] .
      have "scan_j adj tour len i j = scan_j adj tour len i (j + 1)"
        using True False by (subst scan_j.simps) (simp add: Let_def)
      moreover have "find (improves adj tour len) (map (Pair i) [j..<length tour])
          = find (improves adj tour len) (map (Pair i) [j + 1..<length tour])"
        using False by (simp add: up improves_def move_result_def)
      ultimately show ?thesis using ih by simp
    qed
  next
    case False
    then show ?thesis by (subst scan_j.simps) simp
  qed
qed

lemma scan_i_find:
  "scan_i adj tour len i
     = map_option (move_result adj tour)
         (find (improves adj tour len)
            (concat (map (\<lambda>i. map (Pair i) [i + 1..<length tour]) [i..<length tour - 1])))"
proof (induction adj tour len i rule: scan_i.induct)
  case (1 adj tour len i)
  show ?case
  proof (cases "i < length tour - 1")
    case True
    then have up: "[i..<length tour - Suc 0] = i # [Suc i..<length tour - Suc 0]"
      by (simp add: upt_conv_Cons)
    show ?thesis
    proof (cases "scan_j adj tour len i (i + 1)")
      case None
      then show ?thesis using True 1 
        by (subst scan_i.simps) (simp add: up find_append_option scan_j_find split: option.splits)
    next
      case (Some r)
      then show ?thesis using True
        by (subst scan_i.simps) (auto simp add: up find_append_option scan_j_find split: option.splits)
    qed
  next
    case False
    then show ?thesis by (subst scan_i.simps) simp
  qed
qed

lemma set_neighbourhood: "set (neighbourhood N) = {(i, j). 1 \<le> i \<and> i < j \<and> j \<le> N - 1}"
proof (rule set_eqI)
  fix p :: "nat \<times> nat"
  obtain i j where p: "p = (i, j)" by (cases p)
  have "(i, j) \<in> set (neighbourhood N) \<longleftrightarrow> (1 \<le> i \<and> i < N - 1) \<and> (i + 1 \<le> j \<and> j < N)"
    by (auto simp: neighbourhood_def intro!: bexI[of _ i])
  also have "\<dots> \<longleftrightarrow> 1 \<le> i \<and> i < j \<and> j \<le> N - 1" by arith
  finally show "p \<in> set (neighbourhood N) \<longleftrightarrow> p \<in> {(i, j). 1 \<le> i \<and> i < j \<and> j \<le> N - 1}"
    using p by simp
qed

lemma sorted_pairs_from:
  "sorted_wrt (<) js \<Longrightarrow> sorted_wrt lex_less (concat (map (\<lambda>i. map (Pair i) [i + 1..<N]) js))"
proof (induction js)
  case Nil
  then show ?case by simp
next
  case (Cons a js)
  have inner: "sorted_wrt lex_less (map (Pair a) [a + 1..<N])"
    by (simp add: sorted_wrt_map lex_less_def sorted_wrt_iff_nth_less)
  have cross: "lex_less p q"
    if "p \<in> set (map (Pair a) [a + 1..<N])"
      and "q \<in> set (concat (map (\<lambda>i. map (Pair i) [i + 1..<N]) js))" for p q
    using that Cons.prems by (auto simp: lex_less_def)
  show ?case using Cons inner cross by (simp add: sorted_wrt_append)
qed

lemma sorted_neighbourhood: "sorted_wrt lex_less (neighbourhood N)"
  unfolding neighbourhood_def by (rule sorted_pairs_from) (simp add: sorted_wrt_iff_nth_less)

text \<open>
  Claim C3. One pass of the scan (the two nested loops of an iteration of \<^verbatim>\<open>hillClimb\<close>)
  returns the result of the first pair of \<open>neighbourhood N\<close> whose reversed-segment
  tour, with its length computed in full by \<^verbatim>\<open>calculateTourLength\<close>, is strictly
  shorter than the current length, and nothing when no pair is; pairs after the first
  improving one play no part. \<open>neighbourhood N\<close> lists exactly the pairs \<open>(i, j)\<close> with
  \<open>1 \<le> i < j \<le> N-1\<close>, in lexicographic order: \<open>i\<close> from 1 to \<open>N-2\<close> and, for each \<open>i\<close>,
  \<open>j\<close> from \<open>i+1\<close> to \<open>N-1\<close>.
\<close>

theorem neighborhood_scan_first_improvement:
  "neighborhood_scan adj tour len
     = map_option (move_result adj tour)
         (find (improves adj tour len) (neighbourhood (length tour)))
   \<and> sorted_wrt lex_less (neighbourhood (length tour))
   \<and> set (neighbourhood (length tour)) = {(i, j). 1 \<le> i \<and> i < j \<and> j \<le> length tour - 1}"
proof -
  have "neighborhood_scan adj tour len
     = map_option (move_result adj tour)
         (find (improves adj tour len) (neighbourhood (length tour)))"
    unfolding neighborhood_scan_def scan_i_find neighbourhood_def ..
  then show ?thesis
    using sorted_neighbourhood set_neighbourhood by blast
qed


section \<open>Hill climbing\<close>

lemma neighborhood_scan_None:
  assumes "neighborhood_scan adj tour len = None"
    and "1 \<le> i" and "i < j" and "j \<le> length tour - 1"
  shows "\<not> calculateTourLength adj (twoOptSwap tour i j) < len"
proof -
  have "find (improves adj tour len) (neighbourhood (length tour)) = None"
    using assms(1) by (simp add: neighborhood_scan_def scan_i_find neighbourhood_def)
  moreover have "(i, j) \<in> set (neighbourhood (length tour))"
    using assms(2-4) by (simp add: set_neighbourhood)
  ultimately have "\<not> improves adj tour len (i, j)"
    by (auto simp: find_None_iff)
  then show ?thesis by (simp add: improves_def move_result_def)
qed

lemma neighborhood_scan_Some:
  assumes "neighborhood_scan adj tour len = Some (tour', len')"
  shows "\<exists>i j. 1 \<le> i \<and> i < j \<and> j \<le> length tour - 1 \<and> tour' = twoOptSwap tour i j
           \<and> len' = calculateTourLength adj tour' \<and> len' < len"
proof -
  from assms obtain p where f: "find (improves adj tour len) (neighbourhood (length tour)) = Some p"
    and r: "(tour', len') = move_result adj tour p"
    by (auto simp: neighborhood_scan_def scan_i_find neighbourhood_def)
  obtain i j where p: "p = (i, j)" by (cases p)
  from f have "p \<in> set (neighbourhood (length tour))" and "improves adj tour len p"
    by (auto simp: find_Some_iff)
  then have "1 \<le> i \<and> i < j \<and> j \<le> length tour - 1"
    and "calculateTourLength adj (twoOptSwap tour i j) < len"
    unfolding p set_neighbourhood by (simp_all add: improves_def move_result_def)
  moreover from r have "tour' = twoOptSwap tour i j"
    and "len' = calculateTourLength adj (twoOptSwap tour i j)"
    unfolding p by (simp_all add: move_result_def)
  ultimately show ?thesis by blast
qed

lemma hillClimb_iter_consistent:
  "len = calculateTourLength adj tour \<Longrightarrow>
   snd (fst (hillClimb_iter adj n (tour, len)))
     = calculateTourLength adj (fst (fst (hillClimb_iter adj n (tour, len))))"
proof (induction n arbitrary: tour len)
  case 0
  then show ?case by simp
next
  case (Suc n)
  show ?case
  proof (cases "neighborhood_scan adj tour len")
    case None
    then show ?thesis using Suc.prems by simp
  next
    case (Some r)
    obtain t' l' where r: "r = (t', l')" by (cases r)
    from Some r have "l' = calculateTourLength adj t'"
      using neighborhood_scan_Some by blast
    from Suc.IH[OF this] show ?thesis using Some r by simp
  qed
qed

lemma hillClimb_iter_Converged:
  "hillClimb_iter adj n (tour, len) = ((tour', len'), Converged) \<Longrightarrow>
   neighborhood_scan adj tour' len' = None"
proof (induction n arbitrary: tour len)
  case 0
  then show ?case by simp
next
  case (Suc n)
  show ?case
  proof (cases "neighborhood_scan adj tour len")
    case None
    then show ?thesis using Suc.prems by simp
  next
    case (Some r)
    obtain t l where "r = (t, l)" by (cases r)
    then show ?thesis using Some Suc by simp
  qed
qed


text \<open>
  Claim C4. When the loop of \<^verbatim>\<open>hillClimb\<close> leaves through \<^verbatim>\<open>if (!improvement) break\<close>,
  the returned length is the length of the returned tour, and no pair \<open>1 \<le> i < j \<le> N-1\<close>
  gives a reversed-segment tour that is strictly shorter than the returned tour.
\<close>

theorem hillClimb_converged_local_optimum:
  assumes "hillClimb_run adj shuffle numIterations g = (((tour, len), Converged), g')"
    and "1 \<le> i" and "i < j" and "j \<le> length tour - 1"
  shows "len = calculateTourLength adj tour
         \<and> \<not> calculateTourLength adj (twoOptSwap tour i j) < calculateTourLength adj tour"
proof -
  obtain t0 g0 where t0: "generateRandomTour adj shuffle g = (t0, g0)"
    by (cases "generateRandomTour adj shuffle g")
  with assms(1) have it: "hillClimb_iter adj (nat numIterations) (t0, calculateTourLength adj t0)
      = ((tour, len), Converged)"
    by (simp add: hillClimb_run_def)
  from hillClimb_iter_consistent[OF refl, of adj "nat numIterations" t0] it
  have len: "len = calculateTourLength adj tour" by simp
  from it have "neighborhood_scan adj tour len = None" by (rule hillClimb_iter_Converged)
  from neighborhood_scan_None[OF this assms(2-4)] len show ?thesis by simp
qed

theorem hillClimb_converged_local_optimum_witness:
  "hillClimb_run classic4 counter_shuffle 100 (counter_seed 42)
     = ((([0, 1, 3, 2], 80), Converged), 43)
   \<and> \<not> calculateTourLength classic4 (twoOptSwap [0, 1, 3, 2] 1 3)
        < calculateTourLength classic4 [0, 1, 3, 2]"
proof -
  have run: "hillClimb_run classic4 counter_shuffle 100 (counter_seed 42)
      = ((([0, 1, 3, 2], 80), Converged), 43)"
    by code_simp
  have h: "(1::nat) \<le> 1" "(1::nat) < 3" "3 \<le> length [0, 1, 3, 2::nat] - 1" by simp_all
  from hillClimb_converged_local_optimum[OF run h] run show ?thesis by blast
qed

lemma hillClimb_lengths_nonincreasing:
  fixes len :: "'a::{zero,plus,preorder}"
  shows "sorted_wrt (\<lambda>a b. b \<le> a) (len # hillClimb_lengths adj n (tour, len))"
proof (induction n arbitrary: tour len)
  case 0
  show ?case by simp
next
  case (Suc n)
  have tr: "transp (\<lambda>a b :: 'a. b \<le> a)"
    by (rule transpI) (rule order_trans)
  show ?case
  proof (cases "neighborhood_scan adj tour len")
    case None
    then show ?thesis by simp
  next
    case (Some r)
    obtain t' l' where r: "r = (t', l')" by (cases r)
    from Some r have "l' < len" using neighborhood_scan_Some by blast
    then have "l' \<le> len" by (rule less_imp_le)
    moreover have "sorted_wrt (\<lambda>a b. b \<le> a) (l' # hillClimb_lengths adj n (t', l'))"
      by (rule Suc.IH)
    ultimately have "sorted_wrt (\<lambda>a b. b \<le> a) (len # l' # hillClimb_lengths adj n (t', l'))"
      by (simp only: sorted_wrt2[OF tr])
    then show ?thesis using Some r by simp
  qed
qed

lemma hillClimb_iter_last_length:
  "snd (fst (hillClimb_iter adj n (tour, len))) = last (len # hillClimb_lengths adj n (tour, len))"
proof (induction n arbitrary: tour len)
  case 0
  show ?case by simp
next
  case (Suc n)
  show ?case
  proof (cases "neighborhood_scan adj tour len")
    case None
    then show ?thesis by simp
  next
    case (Some r)
    obtain t' l' where r: "r = (t', l')" by (cases r)
    show ?thesis using Some r Suc.IH[of t' l'] by simp
  qed
qed

lemma length_hillClimb_lengths: "length (hillClimb_lengths adj n current) \<le> n"
proof (induction n arbitrary: current)
  case 0
  show ?case by simp
next
  case (Suc n)
  obtain t l where c: "current = (t, l)" by (cases current)
  show ?case using Suc[of "the (neighborhood_scan adj t l)"]
    by (cases "neighborhood_scan adj t l") (simp_all add: c)
qed


text \<open>
  Claim C5. In one run of \<^verbatim>\<open>hillClimb\<close>, whatever the iteration cap, the length of the
  initial random tour followed by the values of \<^verbatim>\<open>currentLength\<close> at the end of each
  iteration is a non-increasing sequence; the returned length is its last element, and
  is at most the length of the initial tour.
\<close>

theorem hillClimb_lengths_monotone:
  fixes adj :: "'a::{zero,plus,preorder} list list"
  assumes "generateRandomTour adj shuffle g = (tour0, g')"
  shows "sorted_wrt (\<lambda>a b. b \<le> a)
           (calculateTourLength adj tour0
            # hillClimb_lengths adj (nat numIterations) (tour0, calculateTourLength adj tour0))
         \<and> snd (fst (hillClimb adj shuffle numIterations g))
             = last (calculateTourLength adj tour0
                     # hillClimb_lengths adj (nat numIterations)
                         (tour0, calculateTourLength adj tour0))
         \<and> snd (fst (hillClimb adj shuffle numIterations g)) \<le> calculateTourLength adj tour0"
proof -
  define l0 where "l0 = calculateTourLength adj tour0"
  define ls where "ls = hillClimb_lengths adj (nat numIterations) (tour0, l0)"
  have s: "sorted_wrt (\<lambda>a b. b \<le> a) (l0 # ls)"
    unfolding ls_def by (rule hillClimb_lengths_nonincreasing)
  have "snd (fst (hillClimb adj shuffle numIterations g))
      = snd (fst (hillClimb_iter adj (nat numIterations) (tour0, l0)))"
    using assms by (simp add: hillClimb_def hillClimb_run_def l0_def)
  then have r: "snd (fst (hillClimb adj shuffle numIterations g)) = last (l0 # ls)"
    by (simp only: hillClimb_iter_last_length ls_def)
  have "last (l0 # ls) \<le> l0"
  proof (cases ls)
    case Nil
    then show ?thesis by simp
  next
    case (Cons a as)
    then have "last ls \<in> set ls" by simp
    then show ?thesis using s Cons by auto
  qed
  with s r show ?thesis unfolding ls_def l0_def by simp
qed

theorem hillClimb_lengths_monotone_witness:
  "generateRandomTour classic4 counter_shuffle (counter_seed 42) = ([0, 1, 2, 3], 43)
   \<and> calculateTourLength classic4 [0, 1, 2, 3] = 95
   \<and> hillClimb_lengths classic4 (nat 100) ([0, 1, 2, 3], 95) = [80, 80]
   \<and> sorted_wrt (\<lambda>a b. b \<le> a) [95, 80, 80::real]
   \<and> snd (fst (hillClimb classic4 counter_shuffle 100 (counter_seed 42))) = 80"
proof -
  have g: "generateRandomTour classic4 counter_shuffle (counter_seed 42) = ([0, 1, 2, 3], 43)"
    by code_simp
  have l: "calculateTourLength classic4 [0, 1, 2, 3] = 95"
    by code_simp
  have t: "hillClimb_lengths classic4 (nat 100) ([0, 1, 2, 3], 95) = [80, 80]"
    by code_simp
  from hillClimb_lengths_monotone[OF g, of 100] show ?thesis
    unfolding l t using g l t by simp
qed

section \<open>Tours stay permutations\<close>

text \<open>The random initial tour, every tour an accepted 2-opt move produces and the tour a
  hill-climb run returns are permutations of \<open>0, ..., N-1\<close> with node 0 first; the
  length a run returns is the length of the tour it returns.\<close>

lemma generateRandomTour_anchored:
  assumes "shuffle_permutes shuffle" and "adj \<noteq> []"
  shows "anchored_tour (length adj) (fst (generateRandomTour adj shuffle g))"
proof -
  obtain s g' where sh: "shuffle g (drop 1 [0..<length adj]) = (s, g')"
    by (cases "shuffle g (drop 1 [0..<length adj])")
  have n: "0 < length adj" using assms(2) by simp
  then have up: "[0..<length adj] = 0 # [1..<length adj]" by (simp add: upt_conv_Cons)
  have "mset s = mset (drop 1 [0..<length adj])"
    using assms(1) sh by (metis shuffle_permutes_def fst_conv)
  then have ms: "mset s = mset [1..<length adj]" by (simp add: up)
  have r: "fst (generateRandomTour adj shuffle g) = 0 # s"
    using sh by (simp add: generateRandomTour_def up)
  show ?thesis unfolding r anchored_tour_def permutation_of_def
    using ms by (simp add: up)
qed

lemma anchored_tour_nonempty: "anchored_tour N tour \<Longrightarrow> tour \<noteq> []"
  by (auto simp: anchored_tour_def)

lemma twoOptSwap_anchored:
  assumes "anchored_tour N tour" and "1 \<le> i" and "i < j" and "j \<le> length tour - 1"
  shows "anchored_tour N (twoOptSwap tour i j)"
proof -
  have ne: "tour \<noteq> []" using assms(1) by (rule anchored_tour_nonempty)
  have "mset (twoOptSwap tour i j) = mset tour"
    using assms(3) by (simp add: twoOptSwap_def mset_reverse_range)
  moreover have "take 1 (twoOptSwap tour i j) = take 1 tour"
    using assms(2) ne by (cases tour; cases i) (simp_all add: twoOptSwap_def reverse_range_def)
  ultimately show ?thesis using assms(1) by (simp add: anchored_tour_def permutation_of_def)
qed

lemma neighborhood_scan_anchored:
  assumes "anchored_tour N tour" and "neighborhood_scan adj tour len = Some (tour', len')"
  shows "anchored_tour N tour'"
  using neighborhood_scan_Some[OF assms(2)] twoOptSwap_anchored[OF assms(1)] by blast

lemma hillClimb_iter_anchored:
  "anchored_tour N tour \<Longrightarrow> anchored_tour N (fst (fst (hillClimb_iter adj n (tour, len))))"
proof (induction n arbitrary: tour len)
  case 0
  then show ?case by simp
next
  case (Suc n)
  show ?case
  proof (cases "neighborhood_scan adj tour len")
    case None
    then show ?thesis using Suc.prems by simp
  next
    case (Some r)
    obtain t' l' where r: "r = (t', l')" by (cases r)
    have "anchored_tour N t'"
      using Suc.prems Some r neighborhood_scan_anchored by blast
    from Suc.IH[OF this] show ?thesis using Some r by simp
  qed
qed

lemma hillClimb_result:
  "fst (hillClimb adj shuffle numIterations g)
     = fst (hillClimb_iter adj (nat numIterations)
         (fst (generateRandomTour adj shuffle g),
          calculateTourLength adj (fst (generateRandomTour adj shuffle g))))"
  by (cases "generateRandomTour adj shuffle g")
    (simp add: hillClimb_def hillClimb_run_def split: prod.splits)

lemma hillClimb_anchored:
  assumes "shuffle_permutes shuffle" and "adj \<noteq> []"
  shows "anchored_tour (length adj) (fst (fst (hillClimb adj shuffle numIterations g)))"
  unfolding hillClimb_result
  by (rule hillClimb_iter_anchored) (rule generateRandomTour_anchored[OF assms])

lemma hillClimb_consistent:
  "snd (fst (hillClimb adj shuffle numIterations g))
     = calculateTourLength adj (fst (fst (hillClimb adj shuffle numIterations g)))"
  unfolding hillClimb_result by (rule hillClimb_iter_consistent) (rule refl)


section \<open>The shotgun reduction\<close>

lemma restart_loop_foldl:
  "fst (restart_loop adj shuffle numIterations n g best)
     = foldl keep_best best (run_results adj shuffle numIterations n g)"
proof (induction n arbitrary: g best)
  case 0
  show ?case by simp
next
  case (Suc n)
  obtain current g' where h: "hillClimb adj shuffle numIterations g = (current, g')"
    by (cases "hillClimb adj shuffle numIterations g")
  show ?case using Suc[of g' "keep_best best current"] by (simp add: h)
qed

lemma length_run_results: "length (run_results adj shuffle numIterations n g) = n"
proof (induction n arbitrary: g)
  case 0
  show ?case by simp
next
  case (Suc n)
  then show ?case by (cases "hillClimb adj shuffle numIterations g") simp
qed

lemma run_results_consistent:
  "r \<in> set (run_results adj shuffle numIterations n g) \<Longrightarrow> snd r = calculateTourLength adj (fst r)"
proof (induction n arbitrary: g)
  case 0
  then show ?case by simp
next
  case (Suc n)
  obtain current g' where h: "hillClimb adj shuffle numIterations g = (current, g')"
    by (cases "hillClimb adj shuffle numIterations g")
  have "snd current = calculateTourLength adj (fst current)"
    using hillClimb_consistent[of adj shuffle numIterations g] by (simp add: h)
  then show ?case using Suc h by auto
qed

lemma run_results_anchored:
  assumes "shuffle_permutes shuffle" and "adj \<noteq> []"
  shows "r \<in> set (run_results adj shuffle numIterations n g) \<Longrightarrow> anchored_tour (length adj) (fst r)"
proof (induction n arbitrary: g)
  case 0
  then show ?case by simp
next
  case (Suc n)
  obtain current g' where h: "hillClimb adj shuffle numIterations g = (current, g')"
    by (cases "hillClimb adj shuffle numIterations g")
  have "anchored_tour (length adj) (fst current)"
    using hillClimb_anchored[OF assms, of numIterations g] by (simp add: h)
  then show ?case using Suc h by auto
qed

text \<open>The reduction replaces the best so far only by a strictly smaller length.\<close>

lemma keep_best_if: "keep_best best current = (if snd current < snd best then current else best)"
  by (simp add: keep_best_def)

lemma keep_best_same: "keep_best best best = best"
  by (simp add: keep_best_if)

lemma foldl_keep_best_snoc:
  "foldl keep_best best (rs @ [r])
     = (if snd r < snd (foldl keep_best best rs) then r else foldl keep_best best rs)"
  by (simp only: foldl_append foldl.simps) (rule keep_best_if)

lemma foldl_keep_best_cases:
  fixes best :: "nat list \<times> 'a::preorder"
  shows "foldl keep_best best rs = best
         \<or> (foldl keep_best best rs \<in> set rs \<and> snd (foldl keep_best best rs) < snd best)"
proof (induction rs rule: rev_induct)
  case Nil
  show ?case by simp
next
  case (snoc r rs)
  show ?case
  proof (cases "snd r < snd (foldl keep_best best rs)")
    case True
    then have "snd r < snd best" using snoc by (auto intro: less_trans)
    then show ?thesis unfolding foldl_keep_best_snoc using True by simp
  next
    case False
    then show ?thesis unfolding foldl_keep_best_snoc using snoc by auto
  qed
qed

lemma foldl_keep_best_Min:
  fixes best :: "nat list \<times> 'a::linorder"
  shows "snd (foldl keep_best best rs) = Min (insert (snd best) (snd ` set rs))"
proof (induction rs rule: rev_induct)
  case Nil
  show ?case by simp
next
  case (snoc r rs)
  have "snd (foldl keep_best best (rs @ [r])) = min (snd r) (snd (foldl keep_best best rs))"
    unfolding foldl_keep_best_snoc by (auto simp: min_def)
  also have "\<dots> = min (snd r) (Min (insert (snd best) (snd ` set rs)))"
    by (simp only: snoc)
  also have "\<dots> = Min (insert (snd r) (insert (snd best) (snd ` set rs)))"
    by simp
  finally show ?case by (simp add: insert_commute)
qed

text \<open>When some run's length is below the initial best length, the run the reduction
  returns is the first one of minimal length.\<close>

lemma foldl_keep_best_first_min:
  fixes best :: "nat list \<times> 'a::linorder"
  assumes "\<exists>r\<in>set rs. snd r < snd best"
  shows "\<exists>k<length rs. foldl keep_best best rs = rs ! k
           \<and> (\<forall>r\<in>set rs. snd (rs ! k) \<le> snd r)
           \<and> (\<forall>m<k. snd (rs ! k) < snd (rs ! m))"
  using assms
proof (induction rs rule: rev_induct)
  case Nil
  then show ?case by simp
next
  case (snoc r rs)
  let ?R = "foldl keep_best best rs"
  show ?case
  proof (cases "snd r < snd ?R")
    case True
    have mn: "snd ?R = Min (insert (snd best) (snd ` set rs))" by (rule foldl_keep_best_Min)
    have a: "\<forall>q\<in>set rs. snd r < snd q"
    proof
      fix q assume "q \<in> set rs"
      then have "snd ?R \<le> snd q" unfolding mn by simp
      with True show "snd r < snd q" by simp
    qed
    have "foldl keep_best best (rs @ [r]) = (rs @ [r]) ! length rs"
      unfolding foldl_keep_best_snoc using True by simp
    moreover have "\<forall>q\<in>set (rs @ [r]). snd ((rs @ [r]) ! length rs) \<le> snd q"
      using a by auto
    moreover have "\<forall>m<length rs. snd ((rs @ [r]) ! length rs) < snd ((rs @ [r]) ! m)"
      using a by (simp add: nth_append)
    ultimately show ?thesis by (intro exI[of _ "length rs"]) simp
  next
    case False
    have ex: "\<exists>q\<in>set rs. snd q < snd best"
    proof (rule ccontr)
      assume n: "\<not> ?thesis"
      then have "snd r < snd best" using snoc.prems by auto
      moreover have "?R = best" using foldl_keep_best_cases[of best rs] n by auto
      ultimately show False using False by simp
    qed
    from snoc.IH[OF ex] obtain k where k: "k < length rs" "?R = rs ! k"
      "\<forall>q\<in>set rs. snd (rs ! k) \<le> snd q" "\<forall>m<k. snd (rs ! k) < snd (rs ! m)"
      by blast
    have "foldl keep_best best (rs @ [r]) = (rs @ [r]) ! k"
      unfolding foldl_keep_best_snoc using False k by (simp add: nth_append)
    moreover have "\<forall>q\<in>set (rs @ [r]). snd ((rs @ [r]) ! k) \<le> snd q"
      using False k by (auto simp: nth_append)
    moreover have "\<forall>m<k. snd ((rs @ [r]) ! k) < snd ((rs @ [r]) ! m)"
      using k by (simp add: nth_append)
    ultimately show ?thesis using k(1) by (intro exI[of _ k]) simp
  qed
qed

lemma restart_loop_cases:
  fixes best :: "nat list \<times> 'a::{zero,plus,preorder}"
  shows "fst (restart_loop adj shuffle numIterations n g best) = best
     \<or> (fst (restart_loop adj shuffle numIterations n g best)
           \<in> set (run_results adj shuffle numIterations n g)
         \<and> snd (fst (restart_loop adj shuffle numIterations n g best)) < snd best)"
  unfolding restart_loop_foldl by (rule foldl_keep_best_cases)

lemma shotgun_first_minimal:
  fixes dmax :: "'a::{zero,plus,linorder}"
  assumes "\<exists>r\<in>set (run_results adj shuffle numIterations (nat numRestarts) g). snd r < dmax"
  shows "\<exists>k<nat numRestarts.
           fst (shotgun_state adj shuffle dmax numIterations numRestarts g)
             = run_results adj shuffle numIterations (nat numRestarts) g ! k
           \<and> (\<forall>r\<in>set (run_results adj shuffle numIterations (nat numRestarts) g).
                 snd (run_results adj shuffle numIterations (nat numRestarts) g ! k) \<le> snd r)
           \<and> (\<forall>m<k. snd (run_results adj shuffle numIterations (nat numRestarts) g ! k)
                       < snd (run_results adj shuffle numIterations (nat numRestarts) g ! m))"
proof -
  let ?rs = "run_results adj shuffle numIterations (nat numRestarts) g"
  have "\<exists>r\<in>set ?rs. snd r < snd ([] :: nat list, dmax)" using assms by simp
  from foldl_keep_best_first_min[OF this] show ?thesis
    unfolding shotgun_state_def restart_loop_foldl by (simp add: length_run_results)
qed

lemma shotgun_none_accepted:
  fixes dmax :: "'a::{zero,plus,preorder}"
  assumes "\<forall>r\<in>set (run_results adj shuffle numIterations (nat numRestarts) g). \<not> snd r < dmax"
  shows "fst (shotgun_state adj shuffle dmax numIterations numRestarts g) = ([], dmax)"
  unfolding shotgun_state_def restart_loop_foldl
  using foldl_keep_best_cases[of "([], dmax)"
      "run_results adj shuffle numIterations (nat numRestarts) g"] assms
  by auto

text \<open>When some run is accepted, the returned tour is a tour of the instance, and the
  length printed for it is the best length of the reduction.\<close>

lemma shotgun_tour_anchored:
  fixes dmax :: "'a::{zero,plus,linorder}"
  assumes "shuffle_permutes shuffle" and "adj \<noteq> []"
    and "\<exists>r\<in>set (run_results adj shuffle numIterations (nat numRestarts) g). snd r < dmax"
  shows "anchored_tour (length adj) (shotgunHillClimbing adj shuffle dmax numIterations numRestarts g)"
proof -
  let ?rs = "run_results adj shuffle numIterations (nat numRestarts) g"
  from shotgun_first_minimal[OF assms(3)] obtain k where "k < nat numRestarts"
    and "fst (shotgun_state adj shuffle dmax numIterations numRestarts g) = ?rs ! k"
    by blast
  then have "fst (shotgun_state adj shuffle dmax numIterations numRestarts g) \<in> set ?rs"
    by (simp add: length_run_results)
  then show ?thesis unfolding shotgunHillClimbing_def
    by (rule run_results_anchored[OF assms(1,2)])
qed

lemma shotgun_length_consistent:
  fixes dmax :: "'a::{zero,plus,linorder}"
  assumes "\<exists>r\<in>set (run_results adj shuffle numIterations (nat numRestarts) g). snd r < dmax"
  shows "calculateTourLength adj (shotgunHillClimbing adj shuffle dmax numIterations numRestarts g)
     = snd (fst (shotgun_state adj shuffle dmax numIterations numRestarts g))"
proof -
  let ?rs = "run_results adj shuffle numIterations (nat numRestarts) g"
  from shotgun_first_minimal[OF assms] obtain k where "k < nat numRestarts"
    and "fst (shotgun_state adj shuffle dmax numIterations numRestarts g) = ?rs ! k"
    by blast
  then have "fst (shotgun_state adj shuffle dmax numIterations numRestarts g) \<in> set ?rs"
    by (simp add: length_run_results)
  then show ?thesis unfolding shotgunHillClimbing_def
    by (rule run_results_consistent[symmetric])
qed


subsection \<open>Instances of one node\<close>

lemma loadAdjacencyMatrix_single: "loadAdjacencyMatrix [[c]] = Inr [[c]]"
  by (simp add: loadAdjacencyMatrix_def isSquareMatrix_def)

lemma calculateTourLength_single: "calculateTourLength [[c]] [0] = 0 + c"
  by (simp add: calculateTourLength_fold)

lemma calculateTourLength_Nil: "calculateTourLength adj [] = 0"
  by (simp add: calculateTourLength_fold)

lemma generateRandomTour_single:
  assumes "shuffle_permutes shuffle"
  shows "fst (generateRandomTour [[c]] shuffle g) = [0]"
proof -
  have "anchored_tour (length [[c]]) (fst (generateRandomTour [[c]] shuffle g))"
    using assms by (rule generateRandomTour_anchored) simp
  then have "mset (fst (generateRandomTour [[c]] shuffle g)) = {#0#}"
    by (simp add: anchored_tour_def permutation_of_def)
  then show ?thesis by simp
qed

lemma neighborhood_scan_single: "neighborhood_scan adj [v] len = None"
  by (simp add: neighborhood_scan_def scan_i_find)

lemma hillClimb_iter_single: "fst (hillClimb_iter adj n ([v], len)) = ([v], len)"
  by (cases n) (simp_all add: neighborhood_scan_single)

lemma hillClimb_single:
  assumes "shuffle_permutes shuffle"
  shows "fst (hillClimb [[c]] shuffle numIterations g) = ([0], 0 + c)"
  unfolding hillClimb_result generateRandomTour_single[OF assms]
  by (simp add: hillClimb_iter_single calculateTourLength_single)

lemma run_results_single:
  assumes "shuffle_permutes shuffle"
  shows "run_results [[c]] shuffle numIterations n g = replicate n ([0], 0 + c)"
proof (induction n arbitrary: g)
  case 0
  show ?case by simp
next
  case (Suc n)
  obtain current g' where h: "hillClimb [[c]] shuffle numIterations g = (current, g')"
    by (cases "hillClimb [[c]] shuffle numIterations g")
  then have "current = ([0], 0 + c)"
    using hillClimb_single[OF assms, of c numIterations g] by simp
  then show ?case using Suc h by simp
qed

lemma foldl_keep_best_replicate_keep:
  "\<not> snd r < snd best \<Longrightarrow> foldl keep_best best (replicate n r) = best"
  by (induction n) (simp_all add: keep_best_if)

lemma foldl_keep_best_replicate:
  fixes best :: "nat list \<times> 'a::preorder"
  shows "foldl keep_best best (replicate n r) = (if 0 < n \<and> snd r < snd best then r else best)"
proof (cases "0 < n \<and> snd r < snd best")
  case True
  then obtain m where n: "n = Suc m" by (cases n) auto
  have "foldl keep_best best (replicate n r) = foldl keep_best r (replicate m r)"
    using True by (simp add: n keep_best_if)
  also have "\<dots> = r" by (rule foldl_keep_best_replicate_keep) simp
  finally show ?thesis using True by simp
next
  case False
  then have "n = 0 \<or> \<not> snd r < snd best" by auto
  then have "foldl keep_best best (replicate n r) = best"
    by (auto simp: foldl_keep_best_replicate_keep)
  then show ?thesis unfolding if_not_P[OF False] .
qed

lemma shotgun_state_single:
  fixes dmax :: "'a::{zero,plus,preorder}"
  assumes "shuffle_permutes shuffle"
  shows "fst (shotgun_state [[c]] shuffle dmax numIterations numRestarts g)
     = (if 1 \<le> numRestarts \<and> 0 + c < dmax then ([0], 0 + c) else ([], dmax))"
proof -
  have "(0 < nat numRestarts) = (1 \<le> numRestarts)" by auto
  then show ?thesis
    unfolding shotgun_state_def restart_loop_foldl run_results_single[OF assms]
      foldl_keep_best_replicate by simp
qed

lemma thread_local_best_single:
  fixes dmax :: "'a::{zero,plus,preorder}"
  assumes "shuffle_permutes shuffle"
  shows "thread_local_best [[c]] shuffle seed_gen dmax numIterations baseSeed th
     = (if 0 < snd th \<and> 0 + c < dmax then ([0], 0 + c) else ([], dmax))"
  unfolding thread_local_best_def restart_loop_foldl run_results_single[OF assms]
    foldl_keep_best_replicate by simp

lemma mset_rotate: "mset (rotate n xs) = mset xs"
proof (induction n)
  case 0
  show ?case by simp
next
  case (Suc n)
  have "mset (rotate1 ys) = mset ys" for ys :: "'a list" by (cases ys) simp_all
  then show ?case using Suc by simp
qed

lemma shuffle_permutes_counter: "shuffle_permutes counter_shuffle"
  by (simp add: shuffle_permutes_def counter_shuffle_def mset_rotate)

lemma DBL_MAX_above: "(0::real) < DBL_MAX" "(1::real) < DBL_MAX" "(2::real) < DBL_MAX"
  "(3::real) < DBL_MAX"
  by (simp_all add: DBL_MAX_def)


subsection \<open>The initial best length\<close>

text \<open>
  The reduction starts from the empty tour and the best length
  \<^verbatim>\<open>std::numeric_limits<double>::max()\<close>, and takes a run only when its length is
  strictly smaller. A run whose length is not below that value is never taken. The
  instance \<open>[[DBL_MAX]]\<close> has one node, whose diagonal entry is the largest finite
  \<^verbatim>\<open>double\<close> (the input line \<^verbatim>\<open>1.7976931348623157e308\<close>): every run returns the tour
  \<open>[0]\<close> with length \<open>0 + DBL_MAX = DBL_MAX\<close>, which is exact in \<^verbatim>\<open>double\<close> as it is
  in \<open>real\<close>.
\<close>

lemma sentinel_not_below: "\<not> 0 + DBL_MAX < DBL_MAX"
  by simp

lemma sentinel_parallel_state:
  assumes "shuffle_permutes shuffle"
  shows "parallel_state [[DBL_MAX]] shuffle seed_gen DBL_MAX numIterations seed schedule
     = ([], DBL_MAX)"
proof -
  let ?f = "thread_local_best [[DBL_MAX]] shuffle seed_gen DBL_MAX numIterations seed"
  have "?f th = ([], DBL_MAX)" for th
    by (simp add: thread_local_best_single[OF assms])
  then have "map ?f schedule = replicate (length schedule) ([], DBL_MAX)"
    by (simp add: map_replicate_const[symmetric])
  then show ?thesis
    unfolding parallel_state_def by (simp add: foldl_keep_best_replicate)
qed

text \<open>
  Claim C7. The claim says that over \<open>R \<ge> 1\<close> runs the reduction returns the run of
  minimal length, the first one under ties. The code does so whenever some run's length
  is below the initial best length (\<open>shotgun_first_minimal\<close>). On the instance
  \<open>[[DBL_MAX]]\<close>, for every generator, iteration cap and number of restarts, every run
  returns \<open>([0], DBL_MAX)\<close> and the reduction ends with the empty tour and the initial
  best length: it returns none of the runs.
\<close>

theorem sentinel_returns_no_run:
  assumes "shuffle_permutes shuffle"
  shows "run_results [[DBL_MAX]] shuffle numIterations (nat numRestarts) g
           = replicate (nat numRestarts) ([0], DBL_MAX)
         \<and> fst (shotgun_state [[DBL_MAX]] shuffle DBL_MAX numIterations numRestarts g)
             = ([], DBL_MAX)"
  by (simp add: run_results_single[OF assms] shotgun_state_single[OF assms])

theorem sentinel_returns_no_run_witness:
  "shuffle_permutes counter_shuffle
   \<and> run_results [[DBL_MAX]] counter_shuffle 100 (nat 5) (counter_seed 42)
       = [([0], DBL_MAX), ([0], DBL_MAX), ([0], DBL_MAX), ([0], DBL_MAX), ([0], DBL_MAX)]
   \<and> fst (shotgun_state [[DBL_MAX]] counter_shuffle DBL_MAX 100 5 (counter_seed 42))
       = ([], DBL_MAX)"
  using sentinel_returns_no_run[OF shuffle_permutes_counter, of 100 5 "counter_seed 42"]
    shuffle_permutes_counter
  by (simp add: numeral_eq_Suc)

text \<open>
  Claim C6. The claim says that every tour produced at any stage, the solver's final
  tour included, is a permutation of \<open>0, ..., N-1\<close> with node 0 first. The initial tour,
  the tour after every accepted move and the tour of every run are
  (\<open>generateRandomTour_anchored\<close>, \<open>twoOptSwap_anchored\<close>, \<open>hillClimb_anchored\<close>), and
  so is the solver's tour when some run is accepted (\<open>shotgun_tour_anchored\<close>). On the
  instance \<open>[[DBL_MAX]]\<close> the matrix is accepted by the constructor and the solver,
  sequential or parallel, returns the empty tour, which is not a permutation of the one
  node.
\<close>

theorem sentinel_returns_empty_tour:
  assumes "shuffle_permutes shuffle"
  shows "loadAdjacencyMatrix [[DBL_MAX]] = Inr [[DBL_MAX]]
         \<and> shotgunHillClimbing [[DBL_MAX]] shuffle DBL_MAX numIterations numRestarts g = []
         \<and> shotgunHillClimbingParallel [[DBL_MAX]] shuffle seed_gen DBL_MAX numIterations seed
               schedule = []
         \<and> \<not> permutation_of (length [[DBL_MAX]]) []"
  by (simp add: loadAdjacencyMatrix_single shotgunHillClimbing_def shotgun_state_single[OF assms]
      shotgunHillClimbingParallel_def sentinel_parallel_state[OF assms] permutation_of_def)

theorem sentinel_returns_empty_tour_witness:
  "shuffle_permutes counter_shuffle
   \<and> loadAdjacencyMatrix [[DBL_MAX]] = Inr [[DBL_MAX]]
   \<and> shotgunHillClimbing [[DBL_MAX]] counter_shuffle DBL_MAX 100 5 (counter_seed 42) = []
   \<and> shotgunHillClimbingParallel [[DBL_MAX]] counter_shuffle counter_seed DBL_MAX 100 42
         [(0, 3), (1, 2)] = []"
  using sentinel_returns_empty_tour[OF shuffle_permutes_counter,
      of 100 5 "counter_seed 42" counter_seed 42 "[(0, 3), (1, 2)]"]
    shuffle_permutes_counter
  by simp

text \<open>
  Claim C10. The claim says that the pair a hill-climb run returns is consistent, and
  that therefore the length \<^verbatim>\<open>main\<close> computes anew from the best tour is the best
  length of the reduction. The first part holds for every run
  (\<open>hillClimb_consistent\<close>), and the second when some run is accepted
  (\<open>shotgun_length_consistent\<close>). On the instance \<open>[[DBL_MAX]]\<close> \<^verbatim>\<open>main\<close> prints the
  empty tour and the length 0, while the best length of the reduction is \<open>DBL_MAX\<close>.
\<close>

theorem sentinel_printed_length_differs:
  assumes "shuffle_permutes shuffle"
  shows "main_sequential [[DBL_MAX]] shuffle seed_gen DBL_MAX numIterations numRestarts seed
           = Inr ([], 0)
         \<and> snd (fst (shotgun_state [[DBL_MAX]] shuffle DBL_MAX numIterations numRestarts
                        (seed_gen seed))) = DBL_MAX
         \<and> DBL_MAX \<noteq> 0"
proof -
  have "shotgunHillClimbing [[DBL_MAX]] shuffle DBL_MAX numIterations numRestarts (seed_gen seed)
      = []"
    by (simp add: shotgunHillClimbing_def shotgun_state_single[OF assms])
  then have "main_sequential [[DBL_MAX]] shuffle seed_gen DBL_MAX numIterations numRestarts seed
      = Inr ([], 0)"
    by (simp add: main_sequential_def loadAdjacencyMatrix_single calculateTourLength_Nil)
  then show ?thesis
    using DBL_MAX_above(1) by (simp add: shotgun_state_single[OF assms])
qed

theorem sentinel_printed_length_differs_witness:
  "shuffle_permutes counter_shuffle
   \<and> main_sequential [[DBL_MAX]] counter_shuffle counter_seed DBL_MAX 100 5 42 = Inr ([], 0)
   \<and> snd (fst (shotgun_state [[DBL_MAX]] counter_shuffle DBL_MAX 100 5 (counter_seed 42)))
       = DBL_MAX"
  using sentinel_printed_length_differs[OF shuffle_permutes_counter, of counter_seed 100 5 42]
    shuffle_permutes_counter
  by simp


section \<open>Parallel restarts\<close>

lemma thread_local_best_cases:
  fixes dmax :: "'a::{zero,plus,preorder}"
  shows "thread_local_best adj shuffle seed_gen dmax numIterations baseSeed th = ([], dmax)
     \<or> (snd (thread_local_best adj shuffle seed_gen dmax numIterations baseSeed th) < dmax
         \<and> snd (thread_local_best adj shuffle seed_gen dmax numIterations baseSeed th)
             = calculateTourLength adj
                 (fst (thread_local_best adj shuffle seed_gen dmax numIterations baseSeed th)))"
  unfolding thread_local_best_def
  using restart_loop_cases[of adj shuffle numIterations "snd th"
      "seed_gen (baseSeed + of_nat (fst th))" "([], dmax)"]
    run_results_consistent[of _ adj shuffle numIterations "snd th"
      "seed_gen (baseSeed + of_nat (fst th))"]
  by auto

lemma parallel_single_thread:
  fixes dmax :: "'a::{zero,plus,preorder}"
  shows "parallel_state adj shuffle seed_gen dmax numIterations seed [(0, n)]
     = fst (restart_loop adj shuffle numIterations n (seed_gen seed) ([], dmax))"
proof -
  let ?l = "fst (restart_loop adj shuffle numIterations n (seed_gen seed) ([], dmax))"
  have "parallel_state adj shuffle seed_gen dmax numIterations seed [(0, n)]
      = keep_best ([], dmax) ?l"
    by (simp add: parallel_state_def thread_local_best_def)
  also have "\<dots> = ?l"
    using restart_loop_cases[of adj shuffle numIterations n "seed_gen seed" "([], dmax)"]
    by (auto simp: keep_best_if)
  finally show ?thesis .
qed

lemma parallel_printed_length:
  fixes dmax :: "'a::{zero,plus,linorder}"
  shows "calculateTourLength adj
           (fst (parallel_state adj shuffle seed_gen dmax numIterations seed schedule))
     = (if Min (insert dmax (snd ` thread_local_best adj shuffle seed_gen dmax numIterations seed
                              ` set schedule)) < dmax
        then Min (insert dmax (snd ` thread_local_best adj shuffle seed_gen dmax numIterations seed
                              ` set schedule))
        else calculateTourLength adj [])"
proof -
  let ?f = "thread_local_best adj shuffle seed_gen dmax numIterations seed"
  let ?R = "foldl keep_best ([], dmax) (map ?f schedule)"
  have m: "snd ?R = Min (insert dmax (snd ` ?f ` set schedule))"
    using foldl_keep_best_Min[of "([], dmax)" "map ?f schedule"] by simp
  consider "?R = ([], dmax)" | "?R \<in> set (map ?f schedule)" "snd ?R < dmax"
    using foldl_keep_best_cases[of "([], dmax)" "map ?f schedule"] by auto
  then have "calculateTourLength adj (fst ?R)
      = (if snd ?R < dmax then snd ?R else calculateTourLength adj [])"
  proof cases
    case 1
    then show ?thesis by simp
  next
    case 2
    then obtain th where "?R = ?f th" by auto
    then show ?thesis
      using 2(2) thread_local_best_cases[of adj shuffle seed_gen dmax numIterations seed th]
      by auto
  qed
  then show ?thesis unfolding m parallel_state_def .
qed

lemma parallel_best_length:
  fixes dmax :: "'a::{zero,plus,linorder}"
  shows "snd (parallel_state adj shuffle seed_gen dmax numIterations seed schedule)
     = Min (insert dmax (snd ` thread_local_best adj shuffle seed_gen dmax numIterations seed
                              ` set schedule))"
  unfolding parallel_state_def
  using foldl_keep_best_Min[of "([], dmax)"
      "map (thread_local_best adj shuffle seed_gen dmax numIterations seed) schedule"]
  by simp

text \<open>
  Claim C8, as amended. The claim says that the sequential and the parallel solver
  return tours of the same length on the same matrix, cap, number of restarts and seed.
  The parallel solver seeds the generator of thread \<open>t\<close> with \<^verbatim>\<open>baseSeed_ + t\<close>, so only
  thread 0 draws from the generator the sequential solver uses. What holds: when thread
  0 runs all restarts (one thread), \<^verbatim>\<open>main\<close> of the parallel program returns the tour
  and the length \<^verbatim>\<open>main\<close> of the sequential program returns; and for a given
  distribution of the restarts over the threads, the best length and the length printed
  do not depend on the order in which the threads enter the critical section.
\<close>

theorem parallel_single_thread_is_sequential:
  fixes dmax :: "'a::{zero,plus,linorder}"
  assumes "mset schedule' = mset schedule"
  shows "main_parallel rows shuffle seed_gen dmax numIterations seed [(0, nat numRestarts)]
           = main_sequential rows shuffle seed_gen dmax numIterations numRestarts seed
         \<and> snd (parallel_state adj shuffle seed_gen dmax numIterations seed schedule')
             = snd (parallel_state adj shuffle seed_gen dmax numIterations seed schedule)
         \<and> calculateTourLength adj
               (shotgunHillClimbingParallel adj shuffle seed_gen dmax numIterations seed schedule')
             = calculateTourLength adj
               (shotgunHillClimbingParallel adj shuffle seed_gen dmax numIterations seed schedule)"
proof -
  have "shotgunHillClimbingParallel a shuffle seed_gen dmax numIterations seed [(0, nat numRestarts)]
      = shotgunHillClimbing a shuffle dmax numIterations numRestarts (seed_gen seed)" for a
    by (simp add: shotgunHillClimbingParallel_def shotgunHillClimbing_def shotgun_state_def
        parallel_single_thread)
  then have a: "main_parallel rows shuffle seed_gen dmax numIterations seed [(0, nat numRestarts)]
      = main_sequential rows shuffle seed_gen dmax numIterations numRestarts seed"
    by (simp add: main_parallel_def main_sequential_def split: sum.splits)
  have s: "set schedule' = set schedule" using assms by (rule mset_eq_setD)
  show ?thesis
    using a unfolding shotgunHillClimbingParallel_def parallel_printed_length parallel_best_length s
    by simp
qed

text \<open>The asymmetric instance with the counter generator, iteration cap 100 and seed 0.
  Three sequential restarts start from \<open>0-1-2-3\<close>, \<open>0-2-3-1\<close> and \<open>0-3-1-2\<close>, each a
  local optimum. With two threads, thread 0 runs two restarts from seed 0 and thread 1
  one restart from seed 1.\<close>

lemma skew4_load: "loadAdjacencyMatrix skew4 = Inr skew4"
  by code_simp

lemma skew4_lengths:
  "calculateTourLength skew4 [0, 3, 1, 2] = 1" "calculateTourLength skew4 [0, 2, 3, 1] = 2"
  by code_simp+

lemma skew4_runs_seed0:
  "run_results skew4 counter_shuffle 100 3 (counter_seed 0)
     = [([0, 1, 2, 3], 3), ([0, 2, 3, 1], 2), ([0, 3, 1, 2], 1)]"
  by code_simp

lemma skew4_runs_thread0:
  "run_results skew4 counter_shuffle 100 2 (counter_seed (0 + of_nat 0))
     = [([0, 1, 2, 3], 3), ([0, 2, 3, 1], 2)]"
  by code_simp

lemma skew4_runs_thread1:
  "run_results skew4 counter_shuffle 100 1 (counter_seed (0 + of_nat 1)) = [([0, 2, 3, 1], 2)]"
  by code_simp

lemma skew4_sequential:
  "main_sequential skew4 counter_shuffle counter_seed DBL_MAX 100 3 0 = Inr ([0, 3, 1, 2], 1)"
proof -
  have n: "nat 3 = 3" by simp
  have h: "shotgunHillClimbing skew4 counter_shuffle DBL_MAX 100 3 (counter_seed 0) = [0, 3, 1, 2]"
    by (simp only: shotgunHillClimbing_def shotgun_state_def restart_loop_foldl n skew4_runs_seed0)
      (simp add: keep_best_if DBL_MAX_above)
  show ?thesis by (simp only: main_sequential_def skew4_load sum.case h Let_def skew4_lengths)
qed

lemma skew4_thread_bests:
  "thread_local_best skew4 counter_shuffle counter_seed DBL_MAX 100 0 (0, 2) = ([0, 2, 3, 1], 2)"
  "thread_local_best skew4 counter_shuffle counter_seed DBL_MAX 100 0 (1, 1) = ([0, 2, 3, 1], 2)"
  by (simp only: thread_local_best_def restart_loop_foldl fst_conv snd_conv
        skew4_runs_thread0 skew4_runs_thread1,
      simp add: keep_best_if DBL_MAX_above)+

lemma skew4_parallel_tour:
  "shotgunHillClimbingParallel skew4 counter_shuffle counter_seed DBL_MAX 100 0 [(0, 2), (1, 1)]
     = [0, 2, 3, 1]"
  by (simp only: shotgunHillClimbingParallel_def parallel_state_def list.map skew4_thread_bests)
    (simp add: keep_best_if DBL_MAX_above)

lemma skew4_parallel:
  "main_parallel skew4 counter_shuffle counter_seed DBL_MAX 100 0 [(0, 2), (1, 1)]
     = Inr ([0, 2, 3, 1], 2)"
  by (simp only: main_parallel_def skew4_load sum.case skew4_parallel_tour Let_def skew4_lengths)

theorem parallel_single_thread_is_sequential_witness:
  "mset [(1, 1), (0, 2::nat)] = mset [(0, 2), (1::nat, 1)]
   \<and> main_parallel skew4 counter_shuffle counter_seed DBL_MAX 100 0 [(0, nat 3)]
       = Inr ([0, 3, 1, 2], 1)
   \<and> main_sequential skew4 counter_shuffle counter_seed DBL_MAX 100 3 0 = Inr ([0, 3, 1, 2], 1)
   \<and> calculateTourLength skew4
        (shotgunHillClimbingParallel skew4 counter_shuffle counter_seed DBL_MAX 100 0
           [(1, 1), (0, 2)]) = 2
   \<and> calculateTourLength skew4
        (shotgunHillClimbingParallel skew4 counter_shuffle counter_seed DBL_MAX 100 0
           [(0, 2), (1, 1)]) = 2"
proof -
  have p: "mset [(1, 1), (0, 2::nat)] = mset [(0, 2), (1::nat, 1)]" by simp
  from parallel_single_thread_is_sequential[OF p,
      of skew4 counter_shuffle counter_seed DBL_MAX 100 0 3 skew4]
  show ?thesis
    unfolding skew4_sequential skew4_parallel_tour skew4_lengths using p by simp
qed

text \<open>The claim as stated fails there: three restarts split over two threads print the
  length 2, the sequential program prints 1. The third sequential restart draws the
  third tour of the generator seeded 0, which no thread draws.\<close>

theorem parallel_differs_from_sequential:
  "schedule_of 3 [(0, 2), (1, 1)]
   \<and> main_sequential skew4 counter_shuffle counter_seed DBL_MAX 100 3 0 = Inr ([0, 3, 1, 2], 1)
   \<and> main_parallel skew4 counter_shuffle counter_seed DBL_MAX 100 0 [(0, 2), (1, 1)]
       = Inr ([0, 2, 3, 1], 2)
   \<and> snd (projr (main_parallel skew4 counter_shuffle counter_seed DBL_MAX 100 0 [(0, 2), (1, 1)]))
       \<noteq> snd (projr (main_sequential skew4 counter_shuffle counter_seed DBL_MAX 100 3 0))"
  unfolding skew4_sequential skew4_parallel by (simp add: schedule_of_def)


text \<open>The same for any generator, on three nodes with iteration cap 0, two restarts
  and two threads with one restart each: unless the second tour drawn from the
  generator seeded \<open>seed\<close> is the first tour drawn from the generator seeded
  \<open>seed + 1\<close>, there is a matrix on which the two programs print different lengths.\<close>

lemma cyc3_facts:
  "loadAdjacencyMatrix cyc3 = Inr cyc3" "length cyc3 = 3"
  "calculateTourLength cyc3 [0, 1, 2] = 3" "calculateTourLength cyc3 [0, 2, 1] = 0"
  "loadAdjacencyMatrix cyc3' = Inr cyc3'" "length cyc3' = 3"
  "calculateTourLength cyc3' [0, 1, 2] = 0" "calculateTourLength cyc3' [0, 2, 1] = 3"
  by code_simp+

lemma shuffle_two:
  assumes "shuffle_permutes shuffle"
  shows "fst (shuffle g [1, 2]) = [1, 2] \<or> fst (shuffle g [1, 2]) = [2, 1]"
proof -
  have m: "mset (fst (shuffle g [1, 2])) = {#1, 2#}"
    using assms by (simp add: shuffle_permutes_def)
  then have "length (fst (shuffle g [1, 2])) = 2"
    by (metis size_mset size_add_mset size_empty numeral_2_eq_2)
  then obtain x y where xy: "fst (shuffle g [1, 2]) = [x, y]"
    by (metis length_0_conv length_Suc_conv numeral_2_eq_2)
  with m have "{#x, y#} = {#1, 2::nat#}" by simp
  then have "(x = 1 \<and> y = 2) \<or> (x = 2 \<and> y = 1)"
    by (auto simp: add_eq_conv_ex)
  then show ?thesis using xy by auto
qed

lemma hillClimb_cap0:
  assumes "length adj = 3"
  shows "hillClimb adj shuffle 0 g
     = ((0 # fst (shuffle g [1, 2]), calculateTourLength adj (0 # fst (shuffle g [1, 2]))),
        snd (shuffle g [1, 2]))"
proof -
  have "[0..<3] = [0, 1, 2::nat]" by (simp add: upt_rec)
  then show ?thesis
    by (simp add: hillClimb_def hillClimb_run_def generateRandomTour_def assms split: prod.splits)
qed


lemma sequential_two_restarts_cap0:
  fixes adj :: "'a::{zero,plus,ord} list list"
  assumes "length adj = 3" and "loadAdjacencyMatrix adj = Inr adj"
    and "shuffle (seed_gen seed) [1, 2] = (a1, g1)" and "shuffle g1 [1, 2] = (a2, g2)"
  shows "main_sequential adj shuffle seed_gen dmax 0 2 seed
     = Inr (fst (keep_best (keep_best ([], dmax) (0 # a1, calculateTourLength adj (0 # a1)))
                    (0 # a2, calculateTourLength adj (0 # a2))),
            calculateTourLength adj
              (fst (keep_best (keep_best ([], dmax) (0 # a1, calculateTourLength adj (0 # a1)))
                      (0 # a2, calculateTourLength adj (0 # a2)))))"
proof -
  have n: "nat 2 = Suc (Suc 0)" by simp
  show ?thesis
    unfolding main_sequential_def assms(2) shotgunHillClimbing_def shotgun_state_def n
    using assms(3,4) by (simp add: hillClimb_cap0[OF assms(1)] Let_def)
qed

lemma parallel_two_threads_cap0:
  fixes adj :: "'a::{zero,plus,ord} list list"
  assumes "length adj = 3" and "loadAdjacencyMatrix adj = Inr adj"
    and "shuffle (seed_gen seed) [1, 2] = (a1, g1)"
    and "shuffle (seed_gen (seed + 1)) [1, 2] = (b1, h1)"
  shows "main_parallel adj shuffle seed_gen dmax 0 seed [(0, 1), (1, 1)]
     = Inr (fst (keep_best
                   (keep_best ([], dmax)
                      (keep_best ([], dmax) (0 # a1, calculateTourLength adj (0 # a1))))
                   (keep_best ([], dmax) (0 # b1, calculateTourLength adj (0 # b1)))),
            calculateTourLength adj
              (fst (keep_best
                   (keep_best ([], dmax)
                      (keep_best ([], dmax) (0 # a1, calculateTourLength adj (0 # a1))))
                   (keep_best ([], dmax) (0 # b1, calculateTourLength adj (0 # b1))))))"
  unfolding main_parallel_def assms(2) shotgunHillClimbingParallel_def parallel_state_def
    thread_local_best_def
  using assms(3,4) by (simp add: hillClimb_cap0[OF assms(1)] Let_def)

lemma parallel_needs_equal_draws:
  assumes "shuffle_permutes shuffle"
    and "fst (shuffle (snd (shuffle (seed_gen seed) [1, 2])) [1, 2])
           \<noteq> fst (shuffle (seed_gen (seed + 1)) [1, 2])"
  shows "\<exists>adj t l t' l'. loadAdjacencyMatrix adj = Inr adj \<and> length adj = 3
           \<and> main_sequential adj shuffle seed_gen DBL_MAX 0 2 seed = Inr (t, l)
           \<and> main_parallel adj shuffle seed_gen DBL_MAX 0 seed [(0, 1), (1, 1)] = Inr (t', l')
           \<and> l \<noteq> l'"
proof -
  obtain a1 g1 where s1: "shuffle (seed_gen seed) [1, 2] = (a1, g1)"
    by (cases "shuffle (seed_gen seed) [1, 2]")
  obtain a2 g2 where s2: "shuffle g1 [1, 2] = (a2, g2)"
    by (cases "shuffle g1 [1, 2]")
  obtain b1 h1 where s3: "shuffle (seed_gen (seed + 1)) [1, 2] = (b1, h1)"
    by (cases "shuffle (seed_gen (seed + 1)) [1, 2]")
  have ne: "a2 \<noteq> b1" using assms(2) unfolding s1 snd_conv s2 s3 fst_conv .
  have a1: "a1 = [1, 2] \<or> a1 = [2, 1]"
    using shuffle_two[OF assms(1), of "seed_gen seed"] unfolding s1 fst_conv .
  have a2: "a2 = [1, 2] \<or> a2 = [2, 1]"
    using shuffle_two[OF assms(1), of g1] unfolding s2 fst_conv .
  have b1: "b1 = [1, 2] \<or> b1 = [2, 1]"
    using shuffle_two[OF assms(1), of "seed_gen (seed + 1)"] unfolding s3 fst_conv .
  note sq = sequential_two_restarts_cap0[where shuffle = shuffle and seed_gen = seed_gen
      and seed = seed and dmax = DBL_MAX, OF _ _ s1 s2]
  note pa = parallel_two_threads_cap0[where shuffle = shuffle and seed_gen = seed_gen
      and seed = seed and dmax = DBL_MAX, OF _ _ s1 s3]
  show ?thesis
  proof (cases "a1 = [1, 2]")
    case True
    have "\<exists>t l t' l'. main_sequential cyc3 shuffle seed_gen DBL_MAX 0 2 seed = Inr (t, l)
           \<and> main_parallel cyc3 shuffle seed_gen DBL_MAX 0 seed [(0, 1), (1, 1)] = Inr (t', l')
           \<and> l \<noteq> l'"
      unfolding sq[OF cyc3_facts(2,1)] pa[OF cyc3_facts(2,1)]
      using True a2 b1 ne
      by (auto simp: keep_best_if cyc3_facts DBL_MAX_above simp del: One_nat_def)
    then show ?thesis using cyc3_facts(1,2) by blast
  next
    case False
    then have a1': "a1 = [2, 1]" using a1 by simp
    have "\<exists>t l t' l'. main_sequential cyc3' shuffle seed_gen DBL_MAX 0 2 seed = Inr (t, l)
           \<and> main_parallel cyc3' shuffle seed_gen DBL_MAX 0 seed [(0, 1), (1, 1)] = Inr (t', l')
           \<and> l \<noteq> l'"
      unfolding sq[OF cyc3_facts(6,5)] pa[OF cyc3_facts(6,5)]
      using a1' a2 b1 ne
      by (auto simp: keep_best_if cyc3_facts DBL_MAX_above simp del: One_nat_def)
    then show ?thesis using cyc3_facts(5,6) by blast
  qed
qed

section \<open>The instance of one node\<close>

lemma schedule_has_work:
  assumes "schedule_of numRestarts schedule" and "1 \<le> numRestarts"
  shows "\<exists>th\<in>set schedule. 0 < snd th"
proof (rule ccontr)
  assume "\<not> ?thesis"
  then have "\<forall>n\<in>set (map snd schedule). n = 0" by auto
  then have "sum_list (map snd schedule) = 0" by (simp only: sum_list_eq_0_iff)
  moreover have "sum_list (map snd schedule) = nat numRestarts"
    using assms(1) by (simp add: schedule_of_def)
  ultimately show False using assms(2) by arith
qed

lemma parallel_state_single:
  fixes dmax :: "'a::{zero,plus,linorder}"
  assumes "shuffle_permutes shuffle" and "schedule_of numRestarts schedule"
    and "1 \<le> numRestarts" and "0 + c < dmax"
  shows "parallel_state [[c]] shuffle seed_gen dmax numIterations baseSeed schedule = ([0], 0 + c)"
proof -
  let ?f = "thread_local_best [[c]] shuffle seed_gen dmax numIterations baseSeed"
  let ?rs = "map ?f schedule"
  obtain th where th: "th \<in> set schedule" "0 < snd th"
    using schedule_has_work[OF assms(2,3)] by blast
  then have "?f th = ([0], 0 + c)"
    using assms(4) by (simp add: thread_local_best_single[OF assms(1)])
  then have in_rs: "([0], 0 + c) \<in> set ?rs" using th(1) by force
  then have "\<exists>r\<in>set ?rs. snd r < snd ([] :: nat list, dmax)"
    using assms(4) by (intro bexI[of _ "([0], 0 + c)"]) simp_all
  from foldl_keep_best_first_min[OF this] obtain k where k: "k < length ?rs"
    "foldl keep_best ([], dmax) ?rs = ?rs ! k" "\<forall>r\<in>set ?rs. snd (?rs ! k) \<le> snd r"
    by blast
  have le: "snd (?rs ! k) \<le> 0 + c" using bspec[OF k(3) in_rs] by simp
  have "?rs ! k = ?f (schedule ! k)" using k(1) by simp
  then have "?rs ! k = ([0], 0 + c) \<or> ?rs ! k = ([], dmax)"
    by (simp add: thread_local_best_single[OF assms(1)])
  then have "?rs ! k = ([0], 0 + c)" using le assms(4) by auto
  then show ?thesis using k(2) by (simp add: parallel_state_def)
qed

text \<open>
  Claim C9, as amended. The claim says that for one node the length of the tour \<open>[0]\<close>
  is 0. \<^verbatim>\<open>calculateTourLength\<close> adds the closing edge for every tour, and for one node
  that is the diagonal entry: the length of \<open>[0]\<close> over \<open>[[c]]\<close> is \<open>c\<close>, which is 0 for
  the matrix \<open>[[0]]\<close>. Solving \<open>[[0]]\<close> returns the tour \<open>[0]\<close> and the length 0 for every
  number of restarts \<open>\<ge> 1\<close> and every iteration cap, sequentially and in parallel
  (\<open>0 < dmax\<close> holds of the largest finite \<^verbatim>\<open>double\<close>). Of the laws of addition only
  \<open>0 + c = c\<close> is used.
\<close>

theorem single_node_solution:
  fixes dmax c :: "'a::{monoid_add,linorder}"
  assumes "shuffle_permutes shuffle" and "1 \<le> numRestarts" and "0 < dmax"
    and "schedule_of numRestarts schedule"
  shows "calculateTourLength [[c]] [0] = c
         \<and> main_sequential [[0]] shuffle seed_gen dmax numIterations numRestarts seed
             = Inr ([0], 0)
         \<and> main_parallel [[0]] shuffle seed_gen dmax numIterations seed schedule = Inr ([0], 0)"
proof -
  have z: "(0::'a) + 0 < dmax" using assms(3) by simp
  have "shotgunHillClimbing [[0]] shuffle dmax numIterations numRestarts (seed_gen seed) = [0]"
    using assms(2) z by (simp add: shotgunHillClimbing_def shotgun_state_single[OF assms(1)])
  then have s: "main_sequential [[0]] shuffle seed_gen dmax numIterations numRestarts seed
      = Inr ([0], 0)"
    by (simp add: main_sequential_def loadAdjacencyMatrix_single calculateTourLength_single)
  have "shotgunHillClimbingParallel [[0]] shuffle seed_gen dmax numIterations seed schedule = [0]"
    using parallel_state_single[OF assms(1,4,2) z]
    by (simp add: shotgunHillClimbingParallel_def)
  then have "main_parallel [[0]] shuffle seed_gen dmax numIterations seed schedule = Inr ([0], 0)"
    by (simp add: main_parallel_def loadAdjacencyMatrix_single calculateTourLength_single)
  with s show ?thesis by (simp add: calculateTourLength_single)
qed

theorem single_node_solution_witness:
  "shuffle_permutes counter_shuffle
   \<and> schedule_of 5 [(0, 3), (1, 2)]
   \<and> calculateTourLength [[7::real]] [0] = 7
   \<and> main_sequential [[0]] counter_shuffle counter_seed DBL_MAX 100 5 42 = Inr ([0], 0)
   \<and> main_parallel [[0]] counter_shuffle counter_seed DBL_MAX 100 42 [(0, 3), (1, 2)]
       = Inr ([0], 0)"
proof -
  have r: "(1::int) \<le> 5" by simp
  have s: "schedule_of 5 [(0, 3), (1, 2)]" by (simp add: schedule_of_def)
  from single_node_solution[OF shuffle_permutes_counter r DBL_MAX_above(1) s, of 7 counter_seed 100 42]
  show ?thesis using shuffle_permutes_counter s by simp
qed

text \<open>The claim as stated fails for a matrix whose diagonal entry is not 0.\<close>

theorem single_node_length_nonzero: "calculateTourLength [[5::real]] [0] \<noteq> 0"
  by (simp add: calculateTourLength_single)


end
